theory Spec2Isabelle
  imports Main "HOL-Library.Sublist"
begin

section \<open>JavaScript strings\<close>

text \<open>
  A JavaScript string is a sequence of code units. The embedding uses \<^typ>\<open>string\<close>: one
  \<^typ>\<open>char\<close> per code unit, for the code units \<open>0x00\<close> to \<open>0xFF\<close> (Latin-1). The
  functions below are the platform's \<open>String.prototype\<close> methods the source calls,
  read off ECMA-262 for this range of code units.
\<close>

definition js_whitespace :: "char \<Rightarrow> bool" where
  \<comment> \<open>WhiteSpace and LineTerminator of ECMA-262 below \<open>0x100\<close>: TAB, LF, VT, FF, CR, SP, NBSP.\<close>
  "js_whitespace c =
     (c = CHR 0x09 \<or> c = CHR 0x0A \<or> c = CHR 0x0B \<or> c = CHR 0x0C \<or>
      c = CHR 0x0D \<or> c = CHR 0x20 \<or> c = CHR 0xA0)"

definition trim :: "string \<Rightarrow> string" where
  \<comment> \<open>\<open>s.trim()\<close>: white space removed from both ends.\<close>
  "trim s = rev (dropWhile js_whitespace (rev (dropWhile js_whitespace s)))"

definition lower_char :: "char \<Rightarrow> char" where
  \<comment> \<open>The lower-case mapping below \<open>0x100\<close>: \<open>A\<close>-\<open>Z\<close> and the Latin-1 capitals
      \<open>0xC0\<close>-\<open>0xDE\<close> (the multiplication sign \<open>0xD7\<close> apart) move up by \<open>0x20\<close>.\<close>
  "lower_char c =
     (let n = (of_char c :: nat)
      in if (0x41 \<le> n \<and> n \<le> 0x5A) \<or> (0xC0 \<le> n \<and> n \<le> 0xDE \<and> n \<noteq> 0xD7)
         then char_of (n + 0x20) else c)"

definition toLowerCase :: "string \<Rightarrow> string" where
  "toLowerCase s = map lower_char s"

fun js_includes :: "string \<Rightarrow> string \<Rightarrow> bool" where
  \<comment> \<open>\<open>s.includes(t)\<close>: \<open>t\<close> occurs in \<open>s\<close> as a run of consecutive code units.\<close>
  "js_includes [] t = (t = [])"
| "js_includes (c # cs) t = (prefix t (c # cs) \<or> js_includes cs t)"

definition truthy :: "string \<Rightarrow> bool" where
  \<comment> \<open>ToBoolean on a string: only the empty string is falsy.\<close>
  "truthy s = (s \<noteq> [])"

section \<open>JSON\<close>

text \<open>
  \<open>JSON.stringify\<close> and \<open>JSON.parse\<close> belong to the platform, not to the repository.
  They are modelled after ECMA-262 (sections 25.5.1 and 25.5.2) on the values a stored
  favourites list is made of: \<open>null\<close>, booleans, integers, strings, arrays and objects.
  A number is a mathematical integer written in decimal (the rounding of integers beyond
  \<open>2^53\<close> to doubles and the sign of zero are not modelled); an object is the list of
  its members in the order of the text (as JavaScript keeps them when the keys are
  distinct and none is an array index). A text whose number has a fraction or an
  exponent, or whose string has a \<open>\u\<close> escape above \<open>0xFF\<close>, lies outside the
  modelled fragment and is answered by \<open>Unsupported\<close>, never by \<open>SyntaxError\<close>.
  The parser is a recursive descent with fuel; \<open>JSON_parse\<close> starts it with enough fuel
  for every text (lemma \<open>JSON_parse_fuel\<close>).
\<close>

datatype json =
  JNull
| JBool bool
| JNum int
| JStr string
| JArr "json list"
| JObj "(string \<times> json) list"

datatype js_error = SyntaxError | Unsupported | OutOfFuel

subsection \<open>\<open>JSON.stringify\<close>\<close>

definition hex_digit :: "nat \<Rightarrow> char" where
  "hex_digit n = ''0123456789abcdef'' ! n"

definition backslash :: char where
  "backslash = CHR 0x5C"

definition dquote :: char where
  "dquote = CHR 0x22"

definition quote_char :: "char \<Rightarrow> string" where
  \<comment> \<open>QuoteJSONString, one code unit: the two-character escapes, \<open>\u00XX\<close> for the other
      control characters, the code unit itself otherwise.\<close>
  "quote_char c =
     (if c = CHR 0x08 then [backslash, CHR ''b'']
      else if c = CHR 0x09 then [backslash, CHR ''t'']
      else if c = CHR 0x0A then [backslash, CHR ''n'']
      else if c = CHR 0x0C then [backslash, CHR ''f'']
      else if c = CHR 0x0D then [backslash, CHR ''r'']
      else if c = dquote then [backslash, dquote]
      else if c = backslash then [backslash, backslash]
      else if (of_char c :: nat) < 0x20
        then [backslash, CHR ''u'', CHR ''0'', CHR ''0'',
              hex_digit ((of_char c :: nat) div 16), hex_digit ((of_char c :: nat) mod 16)]
      else [c])"

definition quote_string :: "string \<Rightarrow> string" where
  "quote_string s = dquote # concat (map quote_char s) @ [dquote]"

definition digit_char :: "nat \<Rightarrow> char" where
  "digit_char d = char_of (48 + d)"

fun digits :: "nat \<Rightarrow> string" where
  \<comment> \<open>The decimal digits of a natural number, most significant first.\<close>
  "digits n = (if n < 10 then [digit_char n] else digits (n div 10) @ [digit_char (n mod 10)])"

declare digits.simps [simp del]

definition number_string :: "int \<Rightarrow> string" where
  \<comment> \<open>Number::toString on an integer.\<close>
  "number_string i = (if i < 0 then CHR ''-'' # digits (nat (- i)) else digits (nat i))"

fun stringify :: "json \<Rightarrow> string"
  and stringify_elems :: "json list \<Rightarrow> string"
  and stringify_membs :: "(string \<times> json) list \<Rightarrow> string" where
  "stringify JNull = ''null''"
| "stringify (JBool b) = (if b then ''true'' else ''false'')"
| "stringify (JNum i) = number_string i"
| "stringify (JStr s) = quote_string s"
| "stringify (JArr xs) = CHR ''['' # stringify_elems xs @ '']''"
| "stringify (JObj kvs) = CHR ''{'' # stringify_membs kvs @ ''}''"
| "stringify_elems [] = []"
| "stringify_elems [x] = stringify x"
| "stringify_elems (x # y # ys) = stringify x @ CHR '','' # stringify_elems (y # ys)"
| "stringify_membs [] = []"
| "stringify_membs [(k, v)] = quote_string k @ CHR '':'' # stringify v"
| "stringify_membs ((k, v) # m # ms) =
     quote_string k @ CHR '':'' # stringify v @ CHR '','' # stringify_membs (m # ms)"

definition JSON_stringify :: "json \<Rightarrow> string" where
  "JSON_stringify v = stringify v"

subsection \<open>\<open>JSON.parse\<close>\<close>

definition json_whitespace :: "char \<Rightarrow> bool" where
  \<comment> \<open>JSON white space: TAB, LF, CR, SP.\<close>
  "json_whitespace c = (c = CHR 0x09 \<or> c = CHR 0x0A \<or> c = CHR 0x0D \<or> c = CHR 0x20)"

definition skip_ws :: "string \<Rightarrow> string" where
  "skip_ws s = dropWhile json_whitespace s"

definition is_digit :: "char \<Rightarrow> bool" where
  "is_digit c = (48 \<le> (of_char c :: nat) \<and> (of_char c :: nat) \<le> 57)"

definition digit_val :: "char \<Rightarrow> nat" where
  "digit_val c = (of_char c :: nat) - 48"

definition digits_val :: "string \<Rightarrow> nat" where
  "digits_val ds = foldl (\<lambda>a c. 10 * a + digit_val c) 0 ds"

definition hex_val :: "char \<Rightarrow> nat option" where
  "hex_val c =
     (let n = (of_char c :: nat)
      in if 48 \<le> n \<and> n \<le> 57 then Some (n - 48)
         else if 97 \<le> n \<and> n \<le> 102 then Some (n - 87)
         else if 65 \<le> n \<and> n \<le> 70 then Some (n - 55)
         else None)"

definition hex4 :: "char \<Rightarrow> char \<Rightarrow> char \<Rightarrow> char \<Rightarrow> nat option" where
  "hex4 a b c d =
     (case (hex_val a, hex_val b, hex_val c, hex_val d) of
        (Some w, Some x, Some y, Some z) \<Rightarrow> Some (((w * 16 + x) * 16 + y) * 16 + z)
      | _ \<Rightarrow> None)"

definition unescape :: "char \<Rightarrow> char option" where
  \<comment> \<open>The character after a backslash, for the two-character escapes.\<close>
  "unescape e =
     (if e = dquote then Some dquote
      else if e = backslash then Some backslash
      else if e = CHR ''/'' then Some CHR ''/''
      else if e = CHR ''b'' then Some (CHR 0x08)
      else if e = CHR ''f'' then Some (CHR 0x0C)
      else if e = CHR ''n'' then Some (CHR 0x0A)
      else if e = CHR ''r'' then Some (CHR 0x0D)
      else if e = CHR ''t'' then Some (CHR 0x09)
      else None)"

definition cons_char :: "char \<Rightarrow> js_error + (string \<times> string) \<Rightarrow> js_error + (string \<times> string)" where
  "cons_char c r = (case r of Inl e \<Rightarrow> Inl e | Inr (s, rest) \<Rightarrow> Inr (c # s, rest))"

fun parse_string :: "string \<Rightarrow> js_error + (string \<times> string)" where
  \<comment> \<open>The characters of a string literal after its opening quote, up to the closing one;
      the result is the string and the text that follows it.\<close>
  "parse_string [] = Inl SyntaxError"
| "parse_string (c # cs) =
     (if c = dquote then Inr ([], cs)
      else if c = backslash then
        (case cs of
           [] \<Rightarrow> Inl SyntaxError
         | e # r \<Rightarrow>
             if e = CHR ''u'' then
               (case r of
                  h1 # h2 # h3 # h4 # r' \<Rightarrow>
                    (case hex4 h1 h2 h3 h4 of
                       None \<Rightarrow> Inl SyntaxError
                     | Some n \<Rightarrow> if n < 256 then cons_char (char_of n) (parse_string r')
                                else Inl Unsupported)
                | _ \<Rightarrow> Inl SyntaxError)
             else
               (case unescape e of
                  None \<Rightarrow> Inl SyntaxError
                | Some ch \<Rightarrow> cons_char ch (parse_string r)))
      else if (of_char c :: nat) < 0x20 then Inl SyntaxError
      else cons_char c (parse_string cs))"

definition parse_number :: "string \<Rightarrow> js_error + (json \<times> string)" where
  \<comment> \<open>A JSON number: an optional minus sign, then \<open>0\<close> or a run of digits that does not
      start with \<open>0\<close>. A fraction or an exponent is outside the fragment.\<close>
  "parse_number s =
     (let neg = (case s of [] \<Rightarrow> False | c # _ \<Rightarrow> c = CHR ''-'');
          s1 = (if neg then tl s else s);
          ds = takeWhile is_digit s1;
          rest = dropWhile is_digit s1
      in if ds = [] then Inl SyntaxError
         else if 1 < length ds \<and> hd ds = CHR ''0'' then Inl SyntaxError
         else if (case rest of [] \<Rightarrow> False | c # _ \<Rightarrow> c = CHR ''.'' \<or> c = CHR ''e'' \<or> c = CHR ''E'')
           then Inl Unsupported
         else Inr (JNum (if neg then - int (digits_val ds) else int (digits_val ds)), rest))"

definition number_end :: "string \<Rightarrow> bool" where
  \<comment> \<open>What may follow a number: the end of the text, or a character that does not
      continue the number.\<close>
  "number_end rest =
     (case rest of [] \<Rightarrow> True
      | c # _ \<Rightarrow> \<not> is_digit c \<and> c \<noteq> CHR ''.'' \<and> c \<noteq> CHR ''e'' \<and> c \<noteq> CHR ''E'')"

fun parse_value :: "nat \<Rightarrow> string \<Rightarrow> js_error + (json \<times> string)"
  and parse_elems :: "nat \<Rightarrow> string \<Rightarrow> js_error + (json list \<times> string)"
  and parse_membs :: "nat \<Rightarrow> string \<Rightarrow> js_error + ((string \<times> json) list \<times> string)" where
  "parse_value 0 s = Inl OutOfFuel"
| "parse_value (Suc f) s =
     (case skip_ws s of
        [] \<Rightarrow> Inl SyntaxError
      | c # cs \<Rightarrow>
          if c = dquote then
            (case parse_string cs of Inl e \<Rightarrow> Inl e | Inr (str, r) \<Rightarrow> Inr (JStr str, r))
          else if c = CHR ''['' then
            (case skip_ws cs of
               [] \<Rightarrow> Inl SyntaxError
             | d # r \<Rightarrow>
                 if d = CHR '']'' then Inr (JArr [], r)
                 else (case parse_elems f cs of Inl e \<Rightarrow> Inl e | Inr (xs, r') \<Rightarrow> Inr (JArr xs, r')))
          else if c = CHR ''{'' then
            (case skip_ws cs of
               [] \<Rightarrow> Inl SyntaxError
             | d # r \<Rightarrow>
                 if d = CHR ''}'' then Inr (JObj [], r)
                 else (case parse_membs f cs of Inl e \<Rightarrow> Inl e | Inr (kvs, r') \<Rightarrow> Inr (JObj kvs, r')))
          else if prefix ''true'' (c # cs) then Inr (JBool True, drop 3 cs)
          else if prefix ''false'' (c # cs) then Inr (JBool False, drop 4 cs)
          else if prefix ''null'' (c # cs) then Inr (JNull, drop 3 cs)
          else if c = CHR ''-'' \<or> is_digit c then parse_number (c # cs)
          else Inl SyntaxError)"
| "parse_elems 0 s = Inl OutOfFuel"
| "parse_elems (Suc f) s =
     (case parse_value f s of
        Inl e \<Rightarrow> Inl e
      | Inr (v, r) \<Rightarrow>
          (case skip_ws r of
             [] \<Rightarrow> Inl SyntaxError
           | d # r' \<Rightarrow>
               if d = CHR '']'' then Inr ([v], r')
               else if d = CHR '','' then
                 (case parse_elems f r' of Inl e \<Rightarrow> Inl e | Inr (vs, r'') \<Rightarrow> Inr (v # vs, r''))
               else Inl SyntaxError))"
| "parse_membs 0 s = Inl OutOfFuel"
| "parse_membs (Suc f) s =
     (case skip_ws s of
        [] \<Rightarrow> Inl SyntaxError
      | q # s1 \<Rightarrow>
          if q \<noteq> dquote then Inl SyntaxError
          else
            (case parse_string s1 of
               Inl e \<Rightarrow> Inl e
             | Inr (k, s2) \<Rightarrow>
                 (case skip_ws s2 of
                    [] \<Rightarrow> Inl SyntaxError
                  | colon # s3 \<Rightarrow>
                      if colon \<noteq> CHR '':'' then Inl SyntaxError
                      else
                        (case parse_value f s3 of
                           Inl e \<Rightarrow> Inl e
                         | Inr (v, r) \<Rightarrow>
                             (case skip_ws r of
                                [] \<Rightarrow> Inl SyntaxError
                              | d # r' \<Rightarrow>
                                  if d = CHR ''}'' then Inr ([(k, v)], r')
                                  else if d = CHR '','' then
                                    (case parse_membs f r' of
                                       Inl e \<Rightarrow> Inl e
                                     | Inr (kvs, r'') \<Rightarrow> Inr ((k, v) # kvs, r''))
                                  else Inl SyntaxError)))))"

definition JSON_parse :: "string \<Rightarrow> js_error + json" where
  \<comment> \<open>One value, white space around it allowed, nothing else after it.\<close>
  "JSON_parse s =
     (case parse_value (2 * length s + 1) s of
        Inl e \<Rightarrow> Inl e
      | Inr (v, rest) \<Rightarrow> if skip_ws rest = [] then Inr v else Inl SyntaxError)"

section \<open>The favourites store (\<open>src/contexts/MovieContext.jsx\<close>)\<close>

text \<open>
  A movie is the catalogue's record: an integer identifier, a title and an optional
  poster path; the store never changes a field. In the running program it is an object,
  and the favourites an array of such objects: \<open>movie_value\<close> and \<open>favourites_value\<close>
  give that JavaScript value, which is what \<open>JSON.stringify\<close> is applied to.
\<close>

record movie =
  movie_id :: int
  title :: string
  poster_path :: "string option"

definition movie_value :: "movie \<Rightarrow> json" where
  "movie_value m =
     JObj [(''id'', JNum (movie_id m)),
           (''title'', JStr (title m)),
           (''poster_path'', (case poster_path m of None \<Rightarrow> JNull | Some p \<Rightarrow> JStr p))]"

definition favourites_value :: "movie list \<Rightarrow> json" where
  "favourites_value favs = JArr (map movie_value favs)"

text \<open>
  The provider's state: the \<open>favourites\<close> state variable of \<open>MovieProvider\<close> and the
  browser's \<open>localStorage\<close>, a map from keys to strings (\<open>getItem\<close> of a missing key
  is \<open>null\<close>, here \<open>None\<close>).
\<close>

record provider =
  favourites :: "movie list"
  localStorage :: "string \<rightharpoonup> string"

definition init_effect :: "(string \<rightharpoonup> string) \<Rightarrow> json \<Rightarrow> js_error + json" where
  \<comment> \<open>The first effect of \<open>MovieProvider\<close> (lines 47-51), run once on mount, on the value
      the \<open>favourites\<close> state holds: \<open>setFavourites(JSON.parse(storedFavs))\<close> when the slot
      holds a truthy string, nothing otherwise. There is no \<open>try\<close> around it: what
      \<open>JSON.parse\<close> throws leaves the effect.\<close>
  "init_effect storage favs =
     (case storage ''favourites'' of
        None \<Rightarrow> Inr favs
      | Some storedFavs \<Rightarrow> if truthy storedFavs then JSON_parse storedFavs else Inr favs)"

definition initialize :: "(string \<rightharpoonup> string) \<Rightarrow> js_error + json" where
  \<comment> \<open>Mounting the provider: \<open>useState([])\<close>, then the first effect.\<close>
  "initialize storage = init_effect storage (JArr [])"

definition persist_effect :: "provider \<Rightarrow> provider" where
  \<comment> \<open>The second effect (lines 56-58):
      \<open>localStorage.setItem("favourites", JSON.stringify(favourites))\<close>.\<close>
  "persist_effect s =
     s\<lparr>localStorage :=
         (localStorage s)(''favourites'' \<mapsto> JSON_stringify (favourites_value (favourites s)))\<rparr>"

definition setFavourites :: "(movie list \<Rightarrow> movie list) \<Rightarrow> provider \<Rightarrow> provider" where
  \<comment> \<open>A state update with an updater function. Both updaters of the source build a new
      array (a spread, a \<open>filter\<close>), so the dependency \<open>[favourites]\<close> of the second effect
      has changed at the next render and the effect runs after it.\<close>
  "setFavourites updater s = persist_effect (s\<lparr>favourites := updater (favourites s)\<rparr>)"

definition addToFavourites :: "movie \<Rightarrow> provider \<Rightarrow> provider" where
  \<comment> \<open>\<open>setFavourites((prev) => [...prev, movie])\<close>\<close>
  "addToFavourites movie = setFavourites (\<lambda>prev. prev @ [movie])"

definition removeFromFavourites :: "int \<Rightarrow> provider \<Rightarrow> provider" where
  \<comment> \<open>\<open>setFavourites((prev) => prev.filter((movie) => movie.id !== movieId))\<close>\<close>
  "removeFromFavourites movieId =
     setFavourites (\<lambda>prev. filter (\<lambda>movie. movie_id movie \<noteq> movieId) prev)"

definition isFavourites :: "int \<Rightarrow> provider \<Rightarrow> bool" where
  \<comment> \<open>\<open>favourites.some((movie) => movie.id === movieId)\<close>\<close>
  "isFavourites movieId s = list_ex (\<lambda>movie. movie_id movie = movieId) (favourites s)"

subsection \<open>Sequences of operations\<close>

datatype fav_op = Add movie | Remove int

fun apply_op :: "fav_op \<Rightarrow> provider \<Rightarrow> provider" where
  "apply_op (Add movie) s = addToFavourites movie s"
| "apply_op (Remove movieId) s = removeFromFavourites movieId s"

definition run_ops :: "fav_op list \<Rightarrow> provider \<Rightarrow> provider" where
  \<comment> \<open>The operations applied from left to right.\<close>
  "run_ops ops s = foldl (\<lambda>st opn. apply_op opn st) s ops"

definition empty_store :: "(string \<rightharpoonup> string) \<Rightarrow> provider" where
  "empty_store storage = \<lparr>favourites = [], localStorage = storage\<rparr>"

definition unique_ids :: "provider \<Rightarrow> bool" where
  \<comment> \<open>The invariant of the specification: each identifier at most once.\<close>
  "unique_ids s = distinct (map movie_id (favourites s))"

fun guarded :: "fav_op list \<Rightarrow> provider \<Rightarrow> bool" where
  \<comment> \<open>Every \<open>Add\<close> of the sequence meets a store that does not contain the movie's
      identifier: the caller has asked \<open>isFavourites\<close> first.\<close>
  "guarded [] s = True"
| "guarded (Add movie # ops) s =
     (\<not> isFavourites (movie_id movie) s \<and> guarded ops (addToFavourites movie s))"
| "guarded (Remove movieId # ops) s = guarded ops (removeFromFavourites movieId s)"

fun affects :: "int \<Rightarrow> fav_op \<Rightarrow> bool" where
  "affects i (Add movie) = (movie_id movie = i)"
| "affects i (Remove movieId) = (movieId = i)"

fun is_add :: "fav_op \<Rightarrow> bool" where
  "is_add (Add movie) = True"
| "is_add (Remove movieId) = False"

definition last_affecting_is_add :: "int \<Rightarrow> fav_op list \<Rightarrow> bool" where
  \<comment> \<open>The specification's net membership: some operation of the sequence affects the
      identifier, and the last one that does is an \<open>Add\<close>.\<close>
  "last_affecting_is_add i ops =
     (case rev (filter (affects i) ops) of [] \<Rightarrow> False | opn # _ \<Rightarrow> is_add opn)"

section \<open>The browse view (\<open>src/pages/Home.jsx\<close>)\<close>

text \<open>
  The catalogue client (\<open>services/api\<close>) is a network call: the model takes the way the
  promise settles as an argument, the rejection's reason or the list of movies.
\<close>

datatype fetch_error = FetchError | DecodeError

record home =
  searchQuery :: string
  movies :: "movie list"
  error :: "string option"
  loading :: bool

definition home_init :: home where
  \<comment> \<open>The four \<open>useState\<close> calls of lines 28-37.\<close>
  "home_init = \<lparr>searchQuery = [], movies = [], error = None, loading = True\<rparr>"

definition loadPopularMovies :: "fetch_error + movie list \<Rightarrow> home \<Rightarrow> home" where
  \<comment> \<open>Lines 48-65, from the moment \<open>getPopularMovies()\<close> settles: the \<open>try\<close> branch or the
      \<open>catch\<close> branch, then \<open>finally\<close>.\<close>
  "loadPopularMovies outcome s =
     (let s1 = (case outcome of
                  Inr popularMovies \<Rightarrow> s\<lparr>movies := popularMovies\<rparr>
                | Inl err \<Rightarrow> s\<lparr>error := Some ''Failed to load movies...''\<rparr>)
      in s1\<lparr>loading := False\<rparr>)"

datatype request = SearchMovies string

definition handleSearch :: "home \<Rightarrow> home \<times> request option" where
  \<comment> \<open>Lines 78-92, up to the \<open>await\<close>: the state after it and the network call made.\<close>
  "handleSearch s =
     (if \<not> truthy (trim (searchQuery s)) then (s, None)
      else if loading s then (s, None)
      else (s\<lparr>loading := True\<rparr>, Some (SearchMovies (searchQuery s))))"

definition handleSearch_settled :: "fetch_error + movie list \<Rightarrow> home \<Rightarrow> home" where
  \<comment> \<open>Lines 92-104, from the moment \<open>searchMovies(searchQuery)\<close> settles.\<close>
  "handleSearch_settled outcome s =
     (let s1 = (case outcome of
                  Inr searchResults \<Rightarrow> s\<lparr>movies := searchResults, error := None\<rparr>
                | Inl err \<Rightarrow> s\<lparr>error := Some ''Failed to search Movies...''\<rparr>)
      in s1\<lparr>loading := False\<rparr>)"

datatype card = MovieCard movie

datatype grid = LoadingText | MoviesGrid "card option list"

definition render_grid :: "home \<Rightarrow> grid" where
  \<comment> \<open>Lines 153-164. An entry of \<open>movies.map(...)\<close> is \<open>false\<close> (here \<open>None\<close>, rendered as
      nothing) or the movie's card.\<close>
  "render_grid s =
     (if loading s then LoadingText
      else MoviesGrid
             (map (\<lambda>movie.
                     if js_includes (toLowerCase (title movie)) (toLowerCase (searchQuery s))
                     then Some (MovieCard movie) else None)
                  (movies s)))"

fun shown :: "grid \<Rightarrow> movie list" where
  \<comment> \<open>The movies whose cards are on the page, in page order.\<close>
  "shown LoadingText = []"
| "shown (MoviesGrid cs) =
     concat (map (\<lambda>c. case c of None \<Rightarrow> [] | Some (MovieCard movie) \<Rightarrow> [movie]) cs)"

definition ci_equal :: "string \<Rightarrow> string \<Rightarrow> bool" where
  \<comment> \<open>Equal up to the case of the letters.\<close>
  "ci_equal a b = (length a = length b \<and> list_all2 (\<lambda>x y. lower_char x = lower_char y) a b)"

definition ci_substring :: "string \<Rightarrow> string \<Rightarrow> bool" where
  \<comment> \<open>The specification's test: some run of consecutive characters of the title equals
      the query up to case.\<close>
  "ci_substring query ttl =
     list_ex (\<lambda>i. ci_equal query (take (length query) (drop i ttl)))
       [0 ..< Suc (length ttl - length query)]"

definition all_whitespace :: "string \<Rightarrow> bool" where
  \<comment> \<open>Empty, or white space only.\<close>
  "all_whitespace q = list_all js_whitespace q"

section \<open>Values used in the examples\<close>

definition dune :: movie where
  "dune = \<lparr>movie_id = 1, title = ''Dune'', poster_path = None\<rparr>"

definition arrival :: movie where
  "arrival = \<lparr>movie_id = 2, title = ''Arrival'', poster_path = Some ''/arrival.jpg''\<rparr>"

definition dune_again :: movie where
  \<comment> \<open>A second record with the identifier of \<open>dune\<close>.\<close>
  "dune_again = \<lparr>movie_id = 1, title = ''Dune (1984)'', poster_path = None\<rparr>"

section \<open>Lemmas: numbers and strings of the JSON text\<close>

lemma digit_val_digit_char: "d < 10 \<Longrightarrow> digit_val (digit_char d) = d"
  by (simp add: digit_val_def digit_char_def)

lemma is_digit_digit_char: "d < 10 \<Longrightarrow> is_digit (digit_char d)"
  by (simp add: is_digit_def digit_char_def)

lemma digit_char_zero_iff: "d < 10 \<Longrightarrow> digit_char d = CHR ''0'' \<longleftrightarrow> d = 0"
proof -
  assume d: "d < 10"
  have "digit_char d = CHR ''0'' \<longleftrightarrow> (of_char (digit_char d) :: nat) = of_char CHR ''0''"
    by (metis of_char_eq_iff)
  also have "\<dots> \<longleftrightarrow> d = 0" using d by (simp add: digit_char_def)
  finally show ?thesis .
qed

lemma digits_nonempty: "digits n \<noteq> []"
  by (subst digits.simps) simp

lemma digits_all_digit: "c \<in> set (digits n) \<Longrightarrow> is_digit c"
proof (induction n arbitrary: c rule: digits.induct)
  case (1 n)
  show ?case
  proof (cases "n < 10")
    case True
    with "1.prems" show ?thesis by (subst (asm) digits.simps) (simp add: is_digit_digit_char)
  next
    case False
    with "1.prems" have "c \<in> set (digits (n div 10)) \<or> c = digit_char (n mod 10)"
      by (subst (asm) digits.simps) auto
    with False "1.IH" show ?thesis by (auto simp: is_digit_digit_char)
  qed
qed

lemma digits_val_snoc: "digits_val (ds @ [c]) = 10 * digits_val ds + digit_val c"
  by (simp add: digits_val_def)

lemma digits_val_digits: "digits_val (digits n) = n"
proof (induction n rule: digits.induct)
  case (1 n)
  show ?case
  proof (cases "n < 10")
    case True
    then show ?thesis by (subst digits.simps) (simp add: digits_val_def digit_val_digit_char)
  next
    case False
    with "1.IH" show ?thesis
      by (subst digits.simps) (simp add: digits_val_snoc digit_val_digit_char)
  qed
qed

lemma digits_hd_nonzero: "0 < n \<Longrightarrow> hd (digits n) \<noteq> CHR ''0''"
proof (induction n rule: digits.induct)
  case (1 n)
  show ?case
  proof (cases "n < 10")
    case True
    with "1.prems" show ?thesis by (subst digits.simps) (simp add: digit_char_zero_iff)
  next
    case False
    then have "0 < n div 10" by simp
    with False "1.IH" show ?thesis
      by (subst digits.simps) (simp add: digits_nonempty)
  qed
qed

lemma digits_length_one: "n < 10 \<Longrightarrow> length (digits n) = 1"
  by (subst digits.simps) simp

lemma digits_no_leading_zero: "\<not> (1 < length (digits n) \<and> hd (digits n) = CHR ''0'')"
proof (cases "n < 10")
  case True
  then show ?thesis by (simp add: digits_length_one)
next
  case False
  then have "0 < n" by simp
  then show ?thesis by (simp add: digits_hd_nonzero)
qed

lemma takeWhile_digits: "number_end rest \<Longrightarrow> takeWhile is_digit (digits n @ rest) = digits n"
  by (cases rest) (auto simp: number_end_def takeWhile_append2 digits_all_digit)

lemma dropWhile_digits: "number_end rest \<Longrightarrow> dropWhile is_digit (digits n @ rest) = rest"
  by (cases rest) (auto simp: number_end_def dropWhile_append2 digits_all_digit)

lemma not_fraction: "number_end rest \<Longrightarrow>
  \<not> (case rest of [] \<Rightarrow> False | c # _ \<Rightarrow> c = CHR ''.'' \<or> c = CHR ''e'' \<or> c = CHR ''E'')"
  by (cases rest) (auto simp: number_end_def)

lemma digits_hd_not_minus: "hd (digits n @ rest) \<noteq> CHR ''-''"
proof -
  have "hd (digits n) \<in> set (digits n)" by (simp add: digits_nonempty)
  then have "is_digit (hd (digits n))" by (rule digits_all_digit)
  then have "hd (digits n) \<noteq> CHR ''-''" by (auto simp: is_digit_def)
  then show ?thesis by (simp add: digits_nonempty)
qed

lemma parse_number_digits:
  assumes "number_end rest"
  shows "parse_number (digits n @ rest) = Inr (JNum (int n), rest)"
proof -
  obtain c cs where s: "digits n @ rest = c # cs"
    using digits_nonempty [of n] by (cases "digits n @ rest") auto
  have c: "c \<noteq> CHR ''-''" using digits_hd_not_minus [of n rest] s by simp
  have neg: "(case digits n @ rest of [] \<Rightarrow> False | d # _ \<Rightarrow> d = CHR ''-'') = False"
    using c by (simp add: s)
  show ?thesis
    unfolding parse_number_def neg
    using assms digits_no_leading_zero [of n]
    by (simp add: takeWhile_digits dropWhile_digits not_fraction
          digits_nonempty digits_val_digits Let_def)
qed

lemma parse_number_minus_digits:
  assumes "number_end rest"
  shows "parse_number (CHR ''-'' # digits n @ rest) = Inr (JNum (- int n), rest)"
  unfolding parse_number_def
  using assms digits_no_leading_zero [of n]
  by (simp add: takeWhile_digits dropWhile_digits not_fraction
        digits_nonempty digits_val_digits Let_def)

lemma parse_number_string:
  "number_end rest \<Longrightarrow> parse_number (number_string i @ rest) = Inr (JNum i, rest)"
  by (simp add: number_string_def parse_number_digits parse_number_minus_digits)

lemma hex_val_hex_digit: "k < 16 \<Longrightarrow> hex_val (hex_digit k) = Some k"
proof -
  assume "k < 16"
  then have "k = 0 \<or> k = 1 \<or> k = 2 \<or> k = 3 \<or> k = 4 \<or> k = 5 \<or> k = 6 \<or> k = 7 \<or>
             k = 8 \<or> k = 9 \<or> k = 10 \<or> k = 11 \<or> k = 12 \<or> k = 13 \<or> k = 14 \<or> k = 15"
    by arith
  then show ?thesis
    by (elim disjE) (simp_all add: hex_val_def hex_digit_def)
qed

lemma hex_val_zero: "hex_val CHR ''0'' = Some 0"
  by (simp add: hex_val_def)

lemma hex4_control:
  "n < 32 \<Longrightarrow> hex4 CHR ''0'' CHR ''0'' (hex_digit (n div 16)) (hex_digit (n mod 16)) = Some n"
  by (simp add: hex4_def hex_val_zero hex_val_hex_digit)

lemma parse_string_quote_char:
  "parse_string (quote_char c @ r) = cons_char c (parse_string r)"
proof -
  consider (bs) "c = CHR 0x08" | (tab) "c = CHR 0x09" | (lf) "c = CHR 0x0A" | (ff) "c = CHR 0x0C"
    | (cr) "c = CHR 0x0D" | (dq) "c = dquote" | (bsl) "c = backslash"
    | (ctl) "c \<noteq> CHR 0x08" "c \<noteq> CHR 0x09" "c \<noteq> CHR 0x0A" "c \<noteq> CHR 0x0C" "c \<noteq> CHR 0x0D"
        "c \<noteq> dquote" "c \<noteq> backslash" "(of_char c :: nat) < 0x20"
    | (plain) "c \<noteq> CHR 0x08" "c \<noteq> CHR 0x09" "c \<noteq> CHR 0x0A" "c \<noteq> CHR 0x0C" "c \<noteq> CHR 0x0D"
        "c \<noteq> dquote" "c \<noteq> backslash" "\<not> (of_char c :: nat) < 0x20"
    by blast
  then show ?thesis
  proof cases
    case bs then show ?thesis by (simp add: quote_char_def backslash_def dquote_def unescape_def)
  next
    case tab then show ?thesis by (simp add: quote_char_def backslash_def dquote_def unescape_def)
  next
    case lf then show ?thesis by (simp add: quote_char_def backslash_def dquote_def unescape_def)
  next
    case ff then show ?thesis by (simp add: quote_char_def backslash_def dquote_def unescape_def)
  next
    case cr then show ?thesis by (simp add: quote_char_def backslash_def dquote_def unescape_def)
  next
    case dq then show ?thesis by (simp add: quote_char_def backslash_def dquote_def unescape_def)
  next
    case bsl then show ?thesis by (simp add: quote_char_def backslash_def dquote_def unescape_def)
  next
    case ctl
    then have q: "quote_char c = [backslash, CHR ''u'', CHR ''0'', CHR ''0'',
        hex_digit ((of_char c :: nat) div 16), hex_digit ((of_char c :: nat) mod 16)]"
      by (simp add: quote_char_def)
    have h: "hex4 CHR ''0'' CHR ''0'' (hex_digit ((of_char c :: nat) div 16))
        (hex_digit ((of_char c :: nat) mod 16)) = Some (of_char c)"
      using ctl(8) by (simp add: hex4_control)
    show ?thesis
      by (simp add: q h) (simp add: backslash_def dquote_def)
  next
    case plain
    then have q: "quote_char c = [c]" by (simp add: quote_char_def)
    from plain show ?thesis by (simp add: q)
  qed
qed

lemma parse_string_quoted:
  "parse_string (concat (map quote_char s) @ dquote # rest) = Inr (s, rest)"
  by (induction s) (simp_all add: parse_string_quote_char cons_char_def)

lemma parse_string_quote_string:
  "parse_string (tl (quote_string s) @ rest) = Inr (s, rest)"
  using parse_string_quoted [of s rest] by (simp add: quote_string_def)

lemma skip_ws_start: "\<not> json_whitespace c \<Longrightarrow> skip_ws (c # cs) = c # cs"
  by (simp add: skip_ws_def)

lemma is_digit_start:
  "is_digit c \<Longrightarrow> \<not> json_whitespace c \<and> c \<noteq> CHR '']'' \<and> c \<noteq> dquote \<and> c \<noteq> CHR ''['' \<and>
     c \<noteq> CHR ''{'' \<and> c \<noteq> CHR ''t'' \<and> c \<noteq> CHR ''f'' \<and> c \<noteq> CHR ''n''"
  by (auto simp: is_digit_def json_whitespace_def dquote_def)

lemma number_string_start:
  obtains c cs where "number_string i = c # cs" "c = CHR ''-'' \<or> is_digit c"
proof (cases "i < 0")
  case True
  then show ?thesis using that by (simp add: number_string_def)
next
  case False
  obtain c cs where d: "digits (nat i) = c # cs"
    using digits_nonempty [of "nat i"] by (cases "digits (nat i)") auto
  then have "c \<in> set (digits (nat i))" by simp
  then have "is_digit c" by (rule digits_all_digit)
  with d False show ?thesis using that by (simp add: number_string_def)
qed

lemma parse_value_minus: "parse_value (Suc f) (CHR ''-'' # cs) = parse_number (CHR ''-'' # cs)"
  by (simp add: skip_ws_def json_whitespace_def dquote_def)

lemma parse_value_digit:
  assumes "is_digit c"
  shows "parse_value (Suc f) (c # cs) = parse_number (c # cs)"
proof -
  from assms have p: "\<not> json_whitespace c" "c \<noteq> dquote" "c \<noteq> CHR ''[''"
     "c \<noteq> CHR ''{''" "c \<noteq> CHR ''t''" "c \<noteq> CHR ''f''" "c \<noteq> CHR ''n''"
    using is_digit_start [of c] by simp_all
  have s: "skip_ws (c # cs) = c # cs" using p(1) by (rule skip_ws_start)
  show ?thesis
    unfolding parse_value.simps s list.case
    using p assms by simp
qed

lemma parse_value_number:
  "c = CHR ''-'' \<or> is_digit c \<Longrightarrow> parse_value (Suc f) (c # cs) = parse_number (c # cs)"
  using parse_value_minus parse_value_digit by blast

lemma parse_value_JNum:
  assumes "number_end rest"
  shows "parse_value (Suc f) (number_string i @ rest) = Inr (JNum i, rest)"
proof -
  obtain c cs where s: "number_string i = c # cs" and c: "c = CHR ''-'' \<or> is_digit c"
    by (rule number_string_start)
  have "parse_value (Suc f) (c # cs @ rest) = parse_number (c # cs @ rest)"
    using c by (rule parse_value_number)
  then show ?thesis using parse_number_string [OF assms, of i] by (simp add: s)
qed

lemma parse_value_JStr: "parse_value (Suc f) (quote_string s @ rest) = Inr (JStr s, rest)"
proof -
  have "parse_value (Suc f) (dquote # concat (map quote_char s) @ dquote # rest) = Inr (JStr s, rest)"
    by (simp add: skip_ws_def json_whitespace_def dquote_def
          parse_string_quoted [unfolded dquote_def])
  then show ?thesis by (simp add: quote_string_def)
qed

lemma parse_value_JNull: "parse_value (Suc f) (''null'' @ rest) = Inr (JNull, rest)"
  by (simp add: skip_ws_def json_whitespace_def dquote_def)

lemma parse_value_JBool:
  "parse_value (Suc f) ((if b then ''true'' else ''false'') @ rest) = Inr (JBool b, rest)"
  by (simp add: skip_ws_def json_whitespace_def dquote_def)

lemma parse_value_JArr_Nil: "parse_value (Suc f) (CHR ''['' # CHR '']'' # rest) = Inr (JArr [], rest)"
  by (simp add: skip_ws_def json_whitespace_def dquote_def)

lemma parse_value_JObj_Nil: "parse_value (Suc f) (CHR ''{'' # CHR ''}'' # rest) = Inr (JObj [], rest)"
  by (simp add: skip_ws_def json_whitespace_def dquote_def)

lemma parse_value_JArr_Cons:
  "\<not> json_whitespace c \<Longrightarrow> c \<noteq> CHR '']'' \<Longrightarrow> parse_elems f (c # cs) = Inr (xs, r) \<Longrightarrow>
   parse_value (Suc f) (CHR ''['' # c # cs) = Inr (JArr xs, r)"
  by (simp add: skip_ws_def json_whitespace_def dquote_def)

lemma parse_value_JObj_Cons:
  "parse_membs f (dquote # cs) = Inr (kvs, r) \<Longrightarrow>
   parse_value (Suc f) (CHR ''{'' # dquote # cs) = Inr (JObj kvs, r)"
  by (simp add: skip_ws_def json_whitespace_def dquote_def)

lemma parse_elems_last:
  "parse_value f s = Inr (v, CHR '']'' # r) \<Longrightarrow> parse_elems (Suc f) s = Inr ([v], r)"
  by (simp add: skip_ws_def json_whitespace_def)

lemma parse_elems_more:
  "parse_value f s = Inr (v, CHR '','' # r) \<Longrightarrow> parse_elems f r = Inr (vs, r') \<Longrightarrow>
   parse_elems (Suc f) s = Inr (v # vs, r')"
  by (simp add: skip_ws_def json_whitespace_def)

lemma parse_membs_last:
  "parse_value f s = Inr (v, CHR ''}'' # r) \<Longrightarrow>
   parse_membs (Suc f) (quote_string k @ CHR '':'' # s) = Inr ([(k, v)], r)"
proof -
  assume a: "parse_value f s = Inr (v, CHR ''}'' # r)"
  have "parse_membs (Suc f) (dquote # concat (map quote_char k) @ dquote # CHR '':'' # s)
      = Inr ([(k, v)], r)"
    by (simp add: skip_ws_def json_whitespace_def dquote_def a
          parse_string_quoted [unfolded dquote_def])
  then show ?thesis by (simp add: quote_string_def)
qed

lemma parse_membs_more:
  "parse_value f s = Inr (v, CHR '','' # r) \<Longrightarrow> parse_membs f r = Inr (kvs, r') \<Longrightarrow>
   parse_membs (Suc f) (quote_string k @ CHR '':'' # s) = Inr ((k, v) # kvs, r')"
proof -
  assume a: "parse_value f s = Inr (v, CHR '','' # r)" and b: "parse_membs f r = Inr (kvs, r')"
  have "parse_membs (Suc f) (dquote # concat (map quote_char k) @ dquote # CHR '':'' # s)
      = Inr ((k, v) # kvs, r')"
    by (simp add: skip_ws_def json_whitespace_def dquote_def a b
          parse_string_quoted [unfolded dquote_def])
  then show ?thesis by (simp add: quote_string_def)
qed

lemma stringify_start:
  obtains c cs where "stringify v = c # cs" "\<not> json_whitespace c" "c \<noteq> CHR '']''"
proof (cases v)
  case JNull
  then show ?thesis using that by (simp add: json_whitespace_def)
next
  case (JBool b)
  then show ?thesis using that by (cases b) (simp_all add: json_whitespace_def)
next
  case (JNum i)
  obtain c cs where s: "number_string i = c # cs" and c: "c = CHR ''-'' \<or> is_digit c"
    by (rule number_string_start)
  from c have "\<not> json_whitespace c \<and> c \<noteq> CHR '']''"
    using is_digit_start [of c] by (auto simp: json_whitespace_def)
  with s JNum show ?thesis using that by simp
next
  case (JStr s)
  then show ?thesis using that by (simp add: quote_string_def json_whitespace_def dquote_def)
next
  case (JArr xs)
  then show ?thesis using that by (simp add: json_whitespace_def)
next
  case (JObj kvs)
  then show ?thesis using that by (simp add: json_whitespace_def)
qed

lemma number_end_delims:
  "number_end (CHR '','' # r)" "number_end (CHR '']'' # r)" "number_end (CHR ''}'' # r)" "number_end []"
  by (simp_all add: number_end_def is_digit_def)

lemma parse_stringify:
  "number_end rest \<Longrightarrow> 2 * length (stringify v) + 1 \<le> f \<Longrightarrow>
     parse_value f (stringify v @ rest) = Inr (v, rest)"
  and "xs \<noteq> [] \<Longrightarrow> 2 * length (stringify_elems xs) + 2 \<le> f \<Longrightarrow>
     parse_elems f (stringify_elems xs @ CHR '']'' # rest) = Inr (xs, rest)"
  and "kvs \<noteq> [] \<Longrightarrow> 2 * length (stringify_membs kvs) + 2 \<le> f \<Longrightarrow>
     parse_membs f (stringify_membs kvs @ CHR ''}'' # rest) = Inr (kvs, rest)"
proof (induction v and xs and kvs arbitrary: f rest and f rest and f rest
    rule: stringify_stringify_elems_stringify_membs.induct)
  case 1
  then obtain g where "f = Suc g" by (cases f) auto
  then show ?case using parse_value_JNull [of g rest] by simp
next
  case (2 b)
  then obtain g where "f = Suc g" by (cases f) auto
  then show ?case using parse_value_JBool [of g b rest] by simp
next
  case (3 i)
  then obtain g where "f = Suc g" by (cases f) auto
  then show ?case using parse_value_JNum [OF "3.prems"(1), of g i] by simp
next
  case (4 s)
  then obtain g where "f = Suc g" by (cases f) auto
  then show ?case using parse_value_JStr [of g s rest] by simp
next
  case (5 xs)
  from "5.prems" obtain g where g: "f = Suc g" by (cases f) auto
  show ?case
  proof (cases xs)
    case Nil
    then show ?thesis using parse_value_JArr_Nil [of g rest] by (simp add: g)
  next
    case (Cons x xs')
    obtain c cs where c: "stringify x = c # cs" "\<not> json_whitespace c" "c \<noteq> CHR '']''"
      by (rule stringify_start)
    obtain es where es: "stringify_elems xs = c # es"
      using c(1) Cons by (cases xs') simp_all
    have "2 * length (stringify_elems xs) + 2 \<le> g" using "5.prems"(2) g by simp
    then have "parse_elems g (stringify_elems xs @ CHR '']'' # rest) = Inr (xs, rest)"
      using "5.IH" Cons by simp
    then have "parse_elems g (c # es @ CHR '']'' # rest) = Inr (xs, rest)"
      by (simp add: es)
    then have "parse_value (Suc g) (CHR ''['' # c # es @ CHR '']'' # rest) = Inr (JArr xs, rest)"
      using c(2,3) by (rule parse_value_JArr_Cons [rotated 2])
    then show ?thesis by (simp add: g es)
  qed
next
  case (6 kvs)
  from "6.prems" obtain g where g: "f = Suc g" by (cases f) auto
  show ?case
  proof (cases kvs)
    case Nil
    then show ?thesis using parse_value_JObj_Nil [of g rest] by (simp add: g)
  next
    case (Cons kv kvs')
    obtain ms where ms: "stringify_membs kvs = dquote # ms"
      using Cons by (cases kv; cases kvs') (simp_all add: quote_string_def)
    have "2 * length (stringify_membs kvs) + 2 \<le> g" using "6.prems"(2) g by simp
    then have "parse_membs g (stringify_membs kvs @ CHR ''}'' # rest) = Inr (kvs, rest)"
      using "6.IH" Cons by simp
    then have "parse_membs g (dquote # ms @ CHR ''}'' # rest) = Inr (kvs, rest)"
      by (simp add: ms)
    then have "parse_value (Suc g) (CHR ''{'' # dquote # ms @ CHR ''}'' # rest) = Inr (JObj kvs, rest)"
      by (rule parse_value_JObj_Cons)
    then show ?thesis by (simp add: g ms)
  qed
next
  case 7
  then show ?case by simp
next
  case (8 x)
  from "8.prems" obtain g where g: "f = Suc g" by (cases f) auto
  have "2 * length (stringify x) + 1 \<le> g" using "8.prems"(2) g by simp
  then have "parse_value g (stringify x @ CHR '']'' # rest) = Inr (x, CHR '']'' # rest)"
    using "8.IH" number_end_delims(2) by blast
  then show ?case using parse_elems_last by (simp add: g)
next
  case (9 x y ys)
  from "9.prems" obtain g where g: "f = Suc g" by (cases f) auto
  let ?r = "stringify_elems (y # ys) @ CHR '']'' # rest"
  have "2 * length (stringify x) + 1 \<le> g" using "9.prems"(2) g by simp
  then have a: "parse_value g (stringify x @ CHR '','' # ?r) = Inr (x, CHR '','' # ?r)"
    using "9.IH"(1) number_end_delims(1) by blast
  have "2 * length (stringify_elems (y # ys)) + 2 \<le> g" using "9.prems"(2) g by simp
  then have b: "parse_elems g ?r = Inr (y # ys, rest)"
    using "9.IH"(2) by blast
  from a b have "parse_elems (Suc g) (stringify x @ CHR '','' # ?r) = Inr (x # y # ys, rest)"
    by (rule parse_elems_more)
  then show ?case by (simp add: g)
next
  case 10
  then show ?case by simp
next
  case (11 k v)
  from "11.prems" obtain g where g: "f = Suc g" by (cases f) auto
  have "2 * length (stringify v) + 1 \<le> g" using "11.prems"(2) g by simp
  then have "parse_value g (stringify v @ CHR ''}'' # rest) = Inr (v, CHR ''}'' # rest)"
    using "11.IH" number_end_delims(3) by blast
  then have "parse_membs (Suc g) (quote_string k @ CHR '':'' # stringify v @ CHR ''}'' # rest)
      = Inr ([(k, v)], rest)"
    by (rule parse_membs_last)
  then show ?case by (simp add: g)
next
  case (12 k v m ms)
  from "12.prems" obtain g where g: "f = Suc g" by (cases f) auto
  let ?r = "stringify_membs (m # ms) @ CHR ''}'' # rest"
  have "2 * length (stringify v) + 1 \<le> g" using "12.prems"(2) g by simp
  then have a: "parse_value g (stringify v @ CHR '','' # ?r) = Inr (v, CHR '','' # ?r)"
    using "12.IH"(1) number_end_delims(1) by blast
  have "2 * length (stringify_membs (m # ms)) + 2 \<le> g" using "12.prems"(2) g by simp
  then have b: "parse_membs g ?r = Inr (m # ms, rest)"
    using "12.IH"(2) by blast
  from a b have "parse_membs (Suc g) (quote_string k @ CHR '':'' # stringify v @ CHR '','' # ?r)
      = Inr ((k, v) # m # ms, rest)"
    by (rule parse_membs_more)
  then show ?case by (simp add: g)
qed

lemma JSON_parse_stringify: "JSON_parse (JSON_stringify v) = Inr v"
proof -
  have "parse_value (2 * length (stringify v) + 1) (stringify v @ []) = Inr (v, [])"
    by (rule parse_stringify(1)) (simp_all add: number_end_delims)
  then show ?thesis by (simp add: JSON_parse_def JSON_stringify_def skip_ws_def)
qed

lemma JSON_stringify_nonempty: "JSON_stringify v \<noteq> []"
  using stringify_start [of v] by (metis JSON_stringify_def list.distinct(1))

section \<open>Lemmas: the parser answers every text\<close>

text \<open>
  The fuel of \<open>JSON_parse\<close> is enough for every text: each call of the parser hands on
  a text that is no longer than its own, and strictly shorter after an opening bracket or
  a comma. So \<open>OutOfFuel\<close> is never the answer: \<open>JSON_parse\<close> returns a value, or
  \<open>SyntaxError\<close>, or \<open>Unsupported\<close>.
\<close>

lemma length_skip_ws: "length (skip_ws s) \<le> length s"
  by (simp add: skip_ws_def length_dropWhile_le)

lemma skip_ws_Cons_length: "skip_ws s = c # cs \<Longrightarrow> length cs < length s"
  using length_skip_ws [of s] by simp

lemma cons_char_Inr:
  "cons_char c r = Inr (str, rest) \<Longrightarrow> \<exists>str'. r = Inr (str', rest)"
  by (auto simp: cons_char_def split: sum.splits)

lemma cons_char_fuel: "cons_char c r = Inl OutOfFuel \<Longrightarrow> r = Inl OutOfFuel"
  by (auto simp: cons_char_def split: sum.splits)

lemma parse_number_length: "parse_number s = Inr (v, r) \<Longrightarrow> length r \<le> length s"
proof -
  have "length (dropWhile is_digit (tl s)) \<le> length s"
    by (metis length_dropWhile_le length_tl diff_le_self le_trans)
  then show "parse_number s = Inr (v, r) \<Longrightarrow> length r \<le> length s"
    by (auto simp: parse_number_def Let_def length_dropWhile_le split: if_splits)
qed

lemma parse_number_fuel: "parse_number s \<noteq> Inl OutOfFuel"
  by (auto simp: parse_number_def Let_def split: if_splits)

lemma list4_cases:
  obtains (short) "length t < 4" | (long) h1 h2 h3 h4 r where "t = h1 # h2 # h3 # h4 # r"
proof (cases "length t < 4")
  case True
  then show ?thesis by (rule short)
next
  case False
  then have "t = hd t # hd (tl t) # hd (tl (tl t)) # hd (tl (tl (tl t))) # drop 4 t"
    by (cases t; cases "tl t"; cases "tl (tl t)"; cases "tl (tl (tl t))") auto
  then show ?thesis by (rule long)
qed

lemma short_case4:
  "length t < 4 \<Longrightarrow> (case t of h1 # h2 # h3 # h4 # r \<Rightarrow> F h1 h2 h3 h4 r | _ \<Rightarrow> d) = d"
  by (auto split: list.splits)

lemma parse_string_escape_u:
  "parse_string (backslash # CHR ''u'' # t) =
     (case t of
        h1 # h2 # h3 # h4 # r' \<Rightarrow>
          (case hex4 h1 h2 h3 h4 of
             None \<Rightarrow> Inl SyntaxError
           | Some n \<Rightarrow> if n < 256 then cons_char (char_of n) (parse_string r')
                      else Inl Unsupported)
      | _ \<Rightarrow> Inl SyntaxError)"
  by (simp add: backslash_def dquote_def)

lemma parse_string_escape_u_short:
  "length t < 4 \<Longrightarrow> parse_string (backslash # CHR ''u'' # t) = Inl SyntaxError"
  unfolding parse_string_escape_u by (rule short_case4)

lemma parse_string_escape_u_long:
  "parse_string (backslash # CHR ''u'' # h1 # h2 # h3 # h4 # r') =
     (case hex4 h1 h2 h3 h4 of
        None \<Rightarrow> Inl SyntaxError
      | Some n \<Rightarrow> if n < 256 then cons_char (char_of n) (parse_string r') else Inl Unsupported)"
  unfolding parse_string_escape_u by simp

lemma parse_string_escape_other:
  "e \<noteq> CHR ''u'' \<Longrightarrow> parse_string (backslash # e # t) =
     (case unescape e of None \<Rightarrow> Inl SyntaxError | Some ch \<Rightarrow> cons_char ch (parse_string t))"
  by (simp add: backslash_def dquote_def)

lemma parse_string_plain:
  "c \<noteq> dquote \<Longrightarrow> c \<noteq> backslash \<Longrightarrow> parse_string (c # cs) =
     (if (of_char c :: nat) < 0x20 then Inl SyntaxError else cons_char c (parse_string cs))"
  by simp

declare parse_string.simps [simp del]

lemma parse_string_steps:
  obtains (close) "c = dquote" "parse_string (c # cs) = Inr ([], cs)"
  | (failed) e where "parse_string (c # cs) = Inl e" "e \<noteq> OutOfFuel"
  | (step) ch t where "length t \<le> length cs" "parse_string (c # cs) = cons_char ch (parse_string t)"
proof (cases "c = dquote")
  case True
  then show ?thesis using close by (simp add: parse_string.simps)
next
  case nq: False
  show ?thesis
  proof (cases "c = backslash")
    case False
    with nq show ?thesis
      using failed [of SyntaxError] step [of cs c]
      by (cases "(of_char c :: nat) < 0x20") (simp_all add: parse_string_plain)
  next
    case bs: True
    show ?thesis
    proof (cases cs)
      case Nil
      with bs show ?thesis
        using failed [of SyntaxError] by (simp add: parse_string.simps backslash_def dquote_def)
    next
      case (Cons e t)
      show ?thesis
      proof (cases "e = CHR ''u''")
        case False
        show ?thesis
        proof (cases "unescape e")
          case None
          with False bs Cons show ?thesis
            using failed [of SyntaxError] by (simp add: parse_string_escape_other)
        next
          case (Some ch)
          with False bs Cons show ?thesis
            using step [of t ch] by (simp add: parse_string_escape_other)
        qed
      next
        case u: True
        show ?thesis
        proof (cases t rule: list4_cases)
          case short
          with u bs Cons show ?thesis
            using failed [of SyntaxError] by (simp add: parse_string_escape_u_short)
        next
          case (long h1 h2 h3 h4 r)
          show ?thesis
          proof (cases "hex4 h1 h2 h3 h4")
            case None
            with long u bs Cons show ?thesis
              using failed [of SyntaxError] by (simp add: parse_string_escape_u_long)
          next
            case (Some n)
            with long u bs Cons show ?thesis
              using failed [of Unsupported] step [of r "char_of n"]
              by (cases "n < 256") (simp_all add: parse_string_escape_u_long)
          qed
        qed
      qed
    qed
  qed
qed

lemma parse_string_length: "parse_string s = Inr (str, r) \<Longrightarrow> length r < length s"
proof (induction s arbitrary: str r rule: measure_induct_rule [of length])
  case (less s)
  show ?case
  proof (cases s)
    case Nil
    with less.prems show ?thesis by (simp add: parse_string.simps)
  next
    case (Cons c cs)
    show ?thesis
    proof (cases c cs rule: parse_string_steps)
      case close
      with less.prems Cons show ?thesis by simp
    next
      case (failed e)
      with less.prems Cons show ?thesis by simp
    next
      case (step ch t)
      with less.prems Cons obtain str' where "parse_string t = Inr (str', r)"
        by (auto dest!: cons_char_Inr)
      moreover have "length t < length s" using step(1) Cons by simp
      ultimately have "length r < length t" using less.IH by blast
      with step(1) Cons show ?thesis by simp
    qed
  qed
qed

lemma parse_string_fuel: "parse_string s \<noteq> Inl OutOfFuel"
proof (induction s rule: measure_induct_rule [of length])
  case (less s)
  show ?case
  proof (cases s)
    case Nil
    then show ?thesis by (simp add: parse_string.simps)
  next
    case (Cons c cs)
    show ?thesis
    proof (cases c cs rule: parse_string_steps)
      case close
      with Cons show ?thesis by simp
    next
      case (failed e)
      with Cons show ?thesis by simp
    next
      case (step ch t)
      have "length t < length s" using step(1) Cons by simp
      then have "parse_string t \<noteq> Inl OutOfFuel" by (rule less.IH)
      with step(2) Cons show ?thesis by (auto dest!: cons_char_fuel)
    qed
  qed
qed

lemma parse_value_steps:
  obtains (failed) e where "parse_value (Suc f) s = Inl e" "e \<noteq> OutOfFuel"
  | (ready) v r where "parse_value (Suc f) s = Inr (v, r)" "length r \<le> length s"
  | (elems) cs where "length cs < length s"
      "parse_value (Suc f) s =
         (case parse_elems f cs of Inl e \<Rightarrow> Inl e | Inr (xs, r') \<Rightarrow> Inr (JArr xs, r'))"
  | (membs) cs where "length cs < length s"
      "parse_value (Suc f) s =
         (case parse_membs f cs of Inl e \<Rightarrow> Inl e | Inr (kvs, r') \<Rightarrow> Inr (JObj kvs, r'))"
proof (cases "skip_ws s")
  case Nil
  then show ?thesis using failed [of SyntaxError] by simp
next
  case (Cons c cs)
  then have len: "length cs < length s" by (rule skip_ws_Cons_length)
  show ?thesis
  proof (cases "c = dquote")
    case True
    show ?thesis
    proof (cases "parse_string cs")
      case (Inl e)
      with True Cons show ?thesis using failed [of e] parse_string_fuel [of cs] by simp
    next
      case (Inr p)
      obtain str r where p: "p = (str, r)" by (cases p)
      with Inr have "length r < length cs" using parse_string_length by blast
      with len have "length r \<le> length s" by simp
      with True Cons Inr p show ?thesis using ready [of "JStr str" r] by simp
    qed
  next
    case nq: False
    show ?thesis
    proof (cases "c = CHR ''[''")
      case True
      show ?thesis
      proof (cases "skip_ws cs")
        case Nil
        with True nq Cons show ?thesis using failed [of SyntaxError] by simp
      next
        case c2: (Cons d r)
        then have "length r < length cs" by (rule skip_ws_Cons_length)
        with len have "length r \<le> length s" by simp
        with True nq Cons c2 len show ?thesis
          using ready [of "JArr []" r] elems [of cs] by (cases "d = CHR '']''") simp_all
      qed
    next
      case na: False
      show ?thesis
      proof (cases "c = CHR ''{''")
        case True
        show ?thesis
        proof (cases "skip_ws cs")
          case Nil
          with True nq na Cons show ?thesis using failed [of SyntaxError] by simp
        next
          case c2: (Cons d r)
          then have "length r < length cs" by (rule skip_ws_Cons_length)
          with len have "length r \<le> length s" by simp
          with True nq na Cons c2 len show ?thesis
            using ready [of "JObj []" r] membs [of cs] by (cases "d = CHR ''}''") simp_all
        qed
      next
        case no: False
        have d3: "length (drop 3 cs) \<le> length s" and d4: "length (drop 4 cs) \<le> length s"
          using len by simp_all
        show ?thesis
        proof (cases "prefix ''true'' (c # cs)")
          case True
          with nq na no Cons d3 show ?thesis using ready [of "JBool True" "drop 3 cs"] by simp
        next
          case nt: False
          show ?thesis
          proof (cases "prefix ''false'' (c # cs)")
            case True
            with nq na no nt Cons d4 show ?thesis using ready [of "JBool False" "drop 4 cs"] by simp
          next
            case nf: False
            show ?thesis
            proof (cases "prefix ''null'' (c # cs)")
              case True
              with nq na no nt nf Cons d3 show ?thesis using ready [of JNull "drop 3 cs"] by simp
            next
              case nn: False
              show ?thesis
              proof (cases "c = CHR ''-'' \<or> is_digit c")
                case False
                with nq na no nt nf nn Cons show ?thesis using failed [of SyntaxError] by simp
              next
                case True
                with nq na no nt nf nn Cons
                have e: "parse_value (Suc f) s = parse_number (c # cs)" by auto
                show ?thesis
                proof (cases "parse_number (c # cs)")
                  case (Inl err)
                  with e show ?thesis using failed [of err] parse_number_fuel [of "c # cs"] by simp
                next
                  case (Inr p)
                  obtain v r where p: "p = (v, r)" by (cases p)
                  with Inr have "length r \<le> length (c # cs)" using parse_number_length by blast
                  moreover have "length (c # cs) \<le> length s"
                    using length_skip_ws [of s] Cons by simp
                  ultimately have "length r \<le> length s" by simp
                  with e Inr p show ?thesis using ready [of v r] by simp
                qed
              qed
            qed
          qed
        qed
      qed
    qed
  qed
qed

lemma parse_elems_steps:
  obtains (failed) e where "parse_elems (Suc f) s = Inl e"
      "e \<noteq> OutOfFuel \<or> parse_value f s = Inl OutOfFuel"
  | (last) v r0 r where "parse_value f s = Inr (v, r0)" "length r < length r0"
      "parse_elems (Suc f) s = Inr ([v], r)"
  | (more) v r0 r' where "parse_value f s = Inr (v, r0)" "length r' < length r0"
      "parse_elems (Suc f) s =
         (case parse_elems f r' of Inl e \<Rightarrow> Inl e | Inr (vs, r'') \<Rightarrow> Inr (v # vs, r''))"
proof (cases "parse_value f s")
  case (Inl e)
  then show ?thesis using failed [of e] by simp
next
  case (Inr p)
  obtain v r0 where p: "p = (v, r0)" by (cases p)
  show ?thesis
  proof (cases "skip_ws r0")
    case Nil
    with Inr p show ?thesis using failed [of SyntaxError] by simp
  next
    case (Cons d r')
    then have len: "length r' < length r0" by (rule skip_ws_Cons_length)
    show ?thesis
    proof (cases "d = CHR '']''")
      case True
      with Inr p Cons len show ?thesis using last [of v r0 r'] by simp
    next
      case False
      with Inr p Cons len show ?thesis
        using failed [of SyntaxError] more [of v r0 r'] by (cases "d = CHR '',''") simp_all
    qed
  qed
qed

lemma parse_membs_steps:
  obtains (failed) e where "parse_membs (Suc f) s = Inl e"
      "e \<noteq> OutOfFuel \<or> (\<exists>s3. length s3 < length s \<and> parse_value f s3 = Inl OutOfFuel)"
  | (last) k v s3 r0 r where "length s3 < length s" "parse_value f s3 = Inr (v, r0)"
      "length r < length r0" "parse_membs (Suc f) s = Inr ([(k, v)], r)"
  | (more) k v s3 r0 r' where "length s3 < length s" "parse_value f s3 = Inr (v, r0)"
      "length r' < length r0"
      "parse_membs (Suc f) s =
         (case parse_membs f r' of Inl e \<Rightarrow> Inl e | Inr (kvs, r'') \<Rightarrow> Inr ((k, v) # kvs, r''))"
proof (cases "skip_ws s")
  case Nil
  then show ?thesis using failed [of SyntaxError] by simp
next
  case c1: (Cons q s1)
  then have l1: "length s1 < length s" by (rule skip_ws_Cons_length)
  show ?thesis
  proof (cases "q = dquote")
    case False
    with c1 show ?thesis using failed [of SyntaxError] by simp
  next
    case q: True
    show ?thesis
    proof (cases "parse_string s1")
      case (Inl e)
      with c1 q show ?thesis using failed [of e] parse_string_fuel [of s1] by simp
    next
      case ps: (Inr p)
      obtain k s2 where p: "p = (k, s2)" by (cases p)
      with ps have l2: "length s2 < length s1" using parse_string_length by blast
      show ?thesis
      proof (cases "skip_ws s2")
        case Nil
        with c1 q ps p show ?thesis using failed [of SyntaxError] by simp
      next
        case c2: (Cons colon s3)
        then have "length s3 < length s2" by (rule skip_ws_Cons_length)
        with l1 l2 have l3: "length s3 < length s" by simp
        show ?thesis
        proof (cases "colon = CHR '':''")
          case False
          with c1 q ps p c2 show ?thesis using failed [of SyntaxError] by simp
        next
          case col: True
          show ?thesis
          proof (cases "parse_value f s3")
            case (Inl e)
            with c1 q ps p c2 col l3 show ?thesis using failed [of e] by auto
          next
            case pv: (Inr pr)
            obtain v r0 where pr: "pr = (v, r0)" by (cases pr)
            show ?thesis
            proof (cases "skip_ws r0")
              case Nil
              with c1 q ps p c2 col pv pr show ?thesis using failed [of SyntaxError] by simp
            next
              case c3: (Cons d r')
              then have len: "length r' < length r0" by (rule skip_ws_Cons_length)
              show ?thesis
              proof (cases "d = CHR ''}''")
                case True
                with c1 q ps p c2 col pv pr c3 len l3 show ?thesis
                  using last [of s3 v r0 r' k] by simp
              next
                case False
                with c1 q ps p c2 col pv pr c3 len l3 show ?thesis
                  using failed [of SyntaxError] more [of s3 v r0 r' k]
                  by (cases "d = CHR '',''") simp_all
              qed
            qed
          qed
        qed
      qed
    qed
  qed
qed

lemma parser_length_all:
  "(\<forall>s v r. parse_value f s = Inr (v, r) \<longrightarrow> length r \<le> length s) \<and>
   (\<forall>s vs r. parse_elems f s = Inr (vs, r) \<longrightarrow> length r \<le> length s) \<and>
   (\<forall>s kvs r. parse_membs f s = Inr (kvs, r) \<longrightarrow> length r \<le> length s)"
proof (induction f)
  case 0
  show ?case by simp
next
  case (Suc f)
  then have IHv: "\<And>s v r. parse_value f s = Inr (v, r) \<Longrightarrow> length r \<le> length s"
    and IHe: "\<And>s vs r. parse_elems f s = Inr (vs, r) \<Longrightarrow> length r \<le> length s"
    and IHm: "\<And>s kvs r. parse_membs f s = Inr (kvs, r) \<Longrightarrow> length r \<le> length s"
    by blast+
  have V: "length r \<le> length s" if a: "parse_value (Suc f) s = Inr (v, r)" for s v r
  proof (cases rule: parse_value_steps [where f = f and s = s])
    case (failed e)
    with a show ?thesis by simp
  next
    case (ready v' r')
    with a show ?thesis by simp
  next
    case (elems cs)
    with a obtain xs where "parse_elems f cs = Inr (xs, r)"
      by (auto split: sum.splits)
    then have "length r \<le> length cs" by (rule IHe)
    with elems(1) show ?thesis by simp
  next
    case (membs cs)
    with a obtain kvs where "parse_membs f cs = Inr (kvs, r)"
      by (auto split: sum.splits)
    then have "length r \<le> length cs" by (rule IHm)
    with membs(1) show ?thesis by simp
  qed
  have E: "length r \<le> length s" if a: "parse_elems (Suc f) s = Inr (vs, r)" for s vs r
  proof (cases rule: parse_elems_steps [where f = f and s = s])
    case (failed e)
    with a show ?thesis by simp
  next
    case (last v r0 r1)
    from last(1) have "length r0 \<le> length s" by (rule IHv)
    with last a show ?thesis by simp
  next
    case (more v r0 r')
    from more(1) have l0: "length r0 \<le> length s" by (rule IHv)
    from more(3) a obtain ws where "parse_elems f r' = Inr (ws, r)"
      by (auto split: sum.splits)
    then have "length r \<le> length r'" by (rule IHe)
    with l0 more(2) show ?thesis by simp
  qed
  have M: "length r \<le> length s" if a: "parse_membs (Suc f) s = Inr (kvs, r)" for s kvs r
  proof (cases rule: parse_membs_steps [where f = f and s = s])
    case (failed e)
    with a show ?thesis by simp
  next
    case (last k v s3 r0 r1)
    from last(2) have "length r0 \<le> length s3" by (rule IHv)
    with last a show ?thesis by simp
  next
    case (more k v s3 r0 r')
    from more(2) have l0: "length r0 \<le> length s3" by (rule IHv)
    from more(4) a obtain ws where "parse_membs f r' = Inr (ws, r)"
      by (auto split: sum.splits)
    then have "length r \<le> length r'" by (rule IHm)
    with l0 more(1,3) show ?thesis by simp
  qed
  from V E M show ?case by blast
qed

lemma parser_fuel_all:
  "(\<forall>s. 2 * length s + 1 \<le> f \<longrightarrow> parse_value f s \<noteq> Inl OutOfFuel) \<and>
   (\<forall>s. 2 * length s + 2 \<le> f \<longrightarrow> parse_elems f s \<noteq> Inl OutOfFuel) \<and>
   (\<forall>s. 2 * length s + 2 \<le> f \<longrightarrow> parse_membs f s \<noteq> Inl OutOfFuel)"
proof (induction f)
  case 0
  show ?case by simp
next
  case (Suc f)
  then have IHv: "\<And>s. 2 * length s + 1 \<le> f \<Longrightarrow> parse_value f s \<noteq> Inl OutOfFuel"
    and IHe: "\<And>s. 2 * length s + 2 \<le> f \<Longrightarrow> parse_elems f s \<noteq> Inl OutOfFuel"
    and IHm: "\<And>s. 2 * length s + 2 \<le> f \<Longrightarrow> parse_membs f s \<noteq> Inl OutOfFuel"
    by blast+
  have V: "parse_value (Suc f) s \<noteq> Inl OutOfFuel" if a: "2 * length s + 1 \<le> Suc f" for s
  proof (cases rule: parse_value_steps [where f = f and s = s])
    case (failed e)
    then show ?thesis by simp
  next
    case (ready v r)
    then show ?thesis by simp
  next
    case (elems cs)
    with a have "2 * length cs + 2 \<le> f" by simp
    then have "parse_elems f cs \<noteq> Inl OutOfFuel" by (rule IHe)
    with elems(2) show ?thesis by (auto split: sum.splits)
  next
    case (membs cs)
    with a have "2 * length cs + 2 \<le> f" by simp
    then have "parse_membs f cs \<noteq> Inl OutOfFuel" by (rule IHm)
    with membs(2) show ?thesis by (auto split: sum.splits)
  qed
  have E: "parse_elems (Suc f) s \<noteq> Inl OutOfFuel" if a: "2 * length s + 2 \<le> Suc f" for s
  proof (cases rule: parse_elems_steps [where f = f and s = s])
    case (failed e)
    from a have "2 * length s + 1 \<le> f" by simp
    then have "parse_value f s \<noteq> Inl OutOfFuel" by (rule IHv)
    with failed show ?thesis by auto
  next
    case (last v r0 r)
    then show ?thesis by simp
  next
    case (more v r0 r')
    from more(1) have "length r0 \<le> length s" using parser_length_all by blast
    with more(2) a have "2 * length r' + 2 \<le> f" by simp
    then have "parse_elems f r' \<noteq> Inl OutOfFuel" by (rule IHe)
    with more(3) show ?thesis by (auto split: sum.splits)
  qed
  have M: "parse_membs (Suc f) s \<noteq> Inl OutOfFuel" if a: "2 * length s + 2 \<le> Suc f" for s
  proof (cases rule: parse_membs_steps [where f = f and s = s])
    case (failed e)
    have "parse_value f s3 \<noteq> Inl OutOfFuel" if "length s3 < length s" for s3
    proof -
      from that a have "2 * length s3 + 1 \<le> f" by simp
      then show ?thesis by (rule IHv)
    qed
    with failed show ?thesis by auto
  next
    case (last k v s3 r0 r)
    then show ?thesis by simp
  next
    case (more k v s3 r0 r')
    from more(2) have "length r0 \<le> length s3" using parser_length_all by blast
    with more(1,3) a have "2 * length r' + 2 \<le> f" by simp
    then have "parse_membs f r' \<noteq> Inl OutOfFuel" by (rule IHm)
    with more(4) show ?thesis by (auto split: sum.splits)
  qed
  from V E M show ?case by blast
qed

lemma JSON_parse_fuel: "JSON_parse s \<noteq> Inl OutOfFuel"
proof -
  have "parse_value (2 * length s + 1) s \<noteq> Inl OutOfFuel"
    using parser_fuel_all [of "2 * length s + 1"] by blast
  then show ?thesis by (auto simp: JSON_parse_def split: sum.splits)
qed

section \<open>Lemmas: the store and the browse view\<close>

lemma favourites_setFavourites: "favourites (setFavourites f s) = f (favourites s)"
  by (simp add: setFavourites_def persist_effect_def)

lemma favourites_add: "favourites (addToFavourites m s) = favourites s @ [m]"
  by (simp add: addToFavourites_def favourites_setFavourites)

lemma favourites_remove:
  "favourites (removeFromFavourites i s) = filter (\<lambda>movie. movie_id movie \<noteq> i) (favourites s)"
  by (simp add: removeFromFavourites_def favourites_setFavourites)

lemma isFavourites_iff: "isFavourites i s \<longleftrightarrow> i \<in> movie_id ` set (favourites s)"
  by (auto simp: isFavourites_def list_ex_iff)

lemma isFavourites_add: "isFavourites i (addToFavourites m s) \<longleftrightarrow> movie_id m = i \<or> isFavourites i s"
  by (auto simp: isFavourites_iff favourites_add)

lemma isFavourites_remove: "isFavourites i (removeFromFavourites j s) \<longleftrightarrow> j \<noteq> i \<and> isFavourites i s"
  by (auto simp: isFavourites_iff favourites_remove)

lemma run_ops_snoc: "run_ops (ops @ [opn]) s = apply_op opn (run_ops ops s)"
  by (simp add: run_ops_def)

lemma run_ops_Cons: "run_ops (opn # ops) s = run_ops ops (apply_op opn s)"
  by (simp add: run_ops_def)

lemma not_isFavourites_empty: "\<not> isFavourites i (empty_store st)"
  by (simp add: isFavourites_def empty_store_def)

lemma unique_ids_remove: "unique_ids s \<Longrightarrow> unique_ids (removeFromFavourites i s)"
  by (simp add: unique_ids_def favourites_remove distinct_map_filter)

lemma unique_ids_add:
  "unique_ids s \<Longrightarrow> \<not> isFavourites (movie_id m) s \<Longrightarrow> unique_ids (addToFavourites m s)"
  by (auto simp: unique_ids_def favourites_add isFavourites_iff)

lemma guarded_unique: "guarded ops s \<Longrightarrow> unique_ids s \<Longrightarrow> unique_ids (run_ops ops s)"
proof (induction ops s rule: guarded.induct)
  case (1 s)
  then show ?case by (simp add: run_ops_def)
next
  case (2 movie ops s)
  then show ?case by (simp add: run_ops_Cons unique_ids_add)
next
  case (3 movieId ops s)
  then show ?case by (simp add: run_ops_Cons unique_ids_remove)
qed

lemma remove_twice: "removeFromFavourites i (removeFromFavourites i s) = removeFromFavourites i s"
  by (simp add: removeFromFavourites_def setFavourites_def persist_effect_def)

lemma remove_absent: "\<not> isFavourites i s \<Longrightarrow> favourites (removeFromFavourites i s) = favourites s"
  by (auto simp: favourites_remove isFavourites_iff filter_id_conv)

lemma dropWhile_all_iff: "(\<forall>x\<in>set (dropWhile P q). P x) \<longleftrightarrow> (\<forall>x\<in>set q. P x)"
proof
  assume a: "\<forall>x\<in>set (dropWhile P q). P x"
  have "dropWhile P q = []"
  proof (rule ccontr)
    assume n: "dropWhile P q \<noteq> []"
    then have "\<not> P (hd (dropWhile P q))" by (rule hd_dropWhile)
    moreover from n have "hd (dropWhile P q) \<in> set (dropWhile P q)" by simp
    ultimately show False using a by blast
  qed
  then show "\<forall>x\<in>set q. P x" by (simp add: dropWhile_eq_Nil_conv)
next
  assume "\<forall>x\<in>set q. P x"
  then show "\<forall>x\<in>set (dropWhile P q). P x" by (meson set_dropWhileD)
qed

lemma trim_empty_iff: "trim q = [] \<longleftrightarrow> all_whitespace q"
  by (simp add: trim_def all_whitespace_def list_all_iff dropWhile_eq_Nil_conv dropWhile_all_iff)

lemma js_includes_sublist: "js_includes s t \<longleftrightarrow> sublist t s"
  by (induction s) (auto simp: sublist_Cons_right)

lemma shown_render:
  "shown (render_grid s) =
     (if loading s then []
      else filter (\<lambda>movie. js_includes (toLowerCase (title movie)) (toLowerCase (searchQuery s))) (movies s))"
proof -
  have "concat (map (\<lambda>c. case c of None \<Rightarrow> [] | Some (MovieCard movie) \<Rightarrow> [movie])
          (map (\<lambda>movie. if P movie then Some (MovieCard movie) else None) ms)) = filter P ms" for P ms
    by (induction ms) auto
  then show ?thesis by (simp add: render_grid_def)
qed

lemma ci_equal_iff: "ci_equal a b \<longleftrightarrow> toLowerCase a = toLowerCase b"
  by (auto simp: ci_equal_def toLowerCase_def list_all2_conv_all_nth list_eq_iff_nth_eq)

lemma ci_substring_iff: "ci_substring q t \<longleftrightarrow> sublist (toLowerCase q) (toLowerCase t)"
proof
  assume "ci_substring q t"
  then obtain i where "ci_equal q (take (length q) (drop i t))"
    unfolding ci_substring_def list_ex_iff by blast
  then have e: "toLowerCase q = toLowerCase (take (length q) (drop i t))"
    by (simp add: ci_equal_iff)
  have "t = take i t @ take (length q) (drop i t) @ drop (length q) (drop i t)"
    by (metis append_take_drop_id)
  then have "toLowerCase t =
      toLowerCase (take i t) @ toLowerCase (take (length q) (drop i t)) @
      toLowerCase (drop (length q) (drop i t))"
    unfolding toLowerCase_def by (metis map_append)
  with e show "sublist (toLowerCase q) (toLowerCase t)"
    unfolding sublist_def by metis
next
  assume "sublist (toLowerCase q) (toLowerCase t)"
  then obtain ps ss where d: "toLowerCase t = ps @ toLowerCase q @ ss"
    by (auto simp: sublist_def)
  then have len: "length t = length ps + length q + length ss"
    by (metis length_append length_map toLowerCase_def add.assoc)
  have lq: "length (toLowerCase q) = length q" by (simp add: toLowerCase_def)
  have "take (length (toLowerCase q)) (drop (length ps) (ps @ toLowerCase q @ ss)) = toLowerCase q"
    by simp
  then have "take (length q) (drop (length ps) (toLowerCase t)) = toLowerCase q"
    by (simp only: d lq)
  then have "toLowerCase (take (length q) (drop (length ps) t)) = toLowerCase q"
    by (simp add: toLowerCase_def take_map drop_map)
  moreover have "length ps < Suc (length t - length q)" using len by simp
  then have "length ps \<in> set [0 ..< Suc (length t - length q)]" by (simp del: upt_Suc)
  ultimately show "ci_substring q t"
    unfolding ci_substring_def list_ex_iff ci_equal_iff by metis
qed

lemma includes_ci: "js_includes (toLowerCase t) (toLowerCase q) \<longleftrightarrow> ci_substring q t"
  by (simp add: js_includes_sublist ci_substring_iff)

lemma js_includes_empty: "js_includes s []"
  by (simp add: js_includes_sublist)


lemma count_list_filter:
  "count_list (filter P xs) x = (if P x then count_list xs x else 0)"
  by (induction xs) auto

lemma movie_value_inj: "movie_value a = movie_value b \<Longrightarrow> a = b"
  by (cases a; cases b) (auto simp: movie_value_def split: option.splits)

lemma favourites_value_inj: "(favourites_value a = favourites_value b) = (a = b)"
proof -
  have "inj movie_value" by (rule injI) (rule movie_value_inj)
  then show ?thesis by (auto simp: favourites_value_def dest: inj_mapD [THEN injD])
qed

lemma JSON_parse_Nil: "JSON_parse [] = Inl SyntaxError"
  by (simp add: JSON_parse_def skip_ws_def)

lemma initialize_stored:
  "initialize (m(''favourites'' \<mapsto> JSON_stringify v)) = Inr v"
  by (simp add: initialize_def init_effect_def truthy_def JSON_stringify_nonempty JSON_parse_stringify)

lemma localStorage_setFavourites:
  "localStorage (setFavourites f s) =
     (localStorage s)(''favourites'' \<mapsto> JSON_stringify (favourites_value (f (favourites s))))"
  by (simp add: setFavourites_def persist_effect_def)

lemma ci_substring_Nil: "ci_substring [] t"
  using includes_ci [of t "[]"] by (simp add: toLowerCase_def js_includes_empty)

section \<open>The favourites store: claims\<close>

text \<open>
  C1. The claim: \<open>add(movie)\<close> on a set that already holds an entry with the movie's
  identifier leaves the set unchanged, so identifiers stay unique under every sequence of
  \<open>add\<close> and \<open>remove\<close> from the empty set. The code has no such test:
  \<open>addToFavourites\<close> appends whatever it is given. What holds: \<open>add\<close> appends the movie
  at the end; \<open>remove\<close> keeps identifiers unique; \<open>add\<close> keeps them unique when the
  identifier is not present yet; hence every sequence from the empty set in which each
  \<open>add\<close> meets a store without that identifier ends in a store with unique identifiers.
\<close>

theorem add_appends_unique_when_guarded:
  "favourites (addToFavourites m s) = favourites s @ [m] \<and>
   (unique_ids s \<longrightarrow> unique_ids (removeFromFavourites i s)) \<and>
   (unique_ids s \<and> \<not> isFavourites (movie_id m) s \<longrightarrow> unique_ids (addToFavourites m s)) \<and>
   (guarded ops (empty_store st) \<longrightarrow> unique_ids (run_ops ops (empty_store st)))"
proof -
  have "unique_ids (empty_store st)" by (simp add: unique_ids_def empty_store_def)
  then show ?thesis
    using favourites_add unique_ids_remove unique_ids_add guarded_unique by blast
qed

text \<open>The theorem at concrete stores: every hypothesis holds there.\<close>

theorem add_appends_unique_when_guarded_witness:
  "favourites (addToFavourites dune_again (addToFavourites dune (empty_store Map.empty)))
     = [dune, dune_again] \<and>
   unique_ids (addToFavourites dune (empty_store Map.empty)) \<and>
   unique_ids (removeFromFavourites 1 (addToFavourites dune (empty_store Map.empty))) \<and>
   \<not> isFavourites (movie_id arrival) (addToFavourites dune (empty_store Map.empty)) \<and>
   unique_ids (addToFavourites arrival (addToFavourites dune (empty_store Map.empty))) \<and>
   guarded [Add dune, Add arrival, Remove 1, Add dune_again] (empty_store Map.empty) \<and>
   unique_ids (run_ops [Add dune, Add arrival, Remove 1, Add dune_again] (empty_store Map.empty))"
proof -
  let ?s = "addToFavourites dune (empty_store Map.empty)"
  have u: "unique_ids ?s"
    by (simp add: unique_ids_def favourites_add empty_store_def)
  have n: "\<not> isFavourites (movie_id arrival) ?s"
    by (simp add: isFavourites_def favourites_add empty_store_def dune_def arrival_def)
  have g: "guarded [Add dune, Add arrival, Remove 1, Add dune_again] (empty_store Map.empty)"
    by (simp add: isFavourites_def favourites_add favourites_remove empty_store_def
          dune_def arrival_def dune_again_def)
  have f: "favourites ?s = [dune]" by (simp add: favourites_add empty_store_def)
  show ?thesis
    using add_appends_unique_when_guarded [of dune_again ?s 1 "[Add dune, Add arrival, Remove 1, Add dune_again]" Map.empty]
      add_appends_unique_when_guarded [of arrival ?s 1 "[]" Map.empty] u n g f
    by simp
qed

text \<open>
  C1 as stated fails: adding \<open>dune\<close> to the store that holds \<open>dune\<close> gives a different
  store, with the record twice, and the sequence \<open>add(dune), add(dune)\<close> from the empty
  set ends with the identifier 1 twice.
\<close>

theorem add_existing_counterexample:
  "isFavourites (movie_id dune) (addToFavourites dune (empty_store Map.empty)) \<and>
   addToFavourites dune (addToFavourites dune (empty_store Map.empty))
     \<noteq> addToFavourites dune (empty_store Map.empty) \<and>
   favourites (addToFavourites dune (addToFavourites dune (empty_store Map.empty))) = [dune, dune] \<and>
   \<not> unique_ids (run_ops [Add dune, Add dune] (empty_store Map.empty))"
proof -
  have f1: "favourites (addToFavourites dune (empty_store Map.empty)) = [dune]"
    by (simp add: favourites_add empty_store_def)
  have f2: "favourites (addToFavourites dune (addToFavourites dune (empty_store Map.empty))) = [dune, dune]"
    by (simp add: favourites_add empty_store_def)
  have "addToFavourites dune (addToFavourites dune (empty_store Map.empty))
     \<noteq> addToFavourites dune (empty_store Map.empty)"
    using f1 f2 by (metis list.inject list.distinct(1))
  moreover have "isFavourites (movie_id dune) (addToFavourites dune (empty_store Map.empty))"
    by (simp add: isFavourites_def f1)
  moreover have "\<not> unique_ids (run_ops [Add dune, Add dune] (empty_store Map.empty))"
    by (simp add: unique_ids_def run_ops_def f2)
  ultimately show ?thesis using f2 by simp
qed

text \<open>
  C2. For every sequence of \<open>add\<close> and \<open>remove\<close> operations applied to the empty
  favourites set and every identifier, \<open>isFavourites\<close> answers true exactly when the last
  operation of the sequence that affects the identifier is an \<open>add\<close> of a movie with it
  (and false when no operation affects it).
\<close>

theorem contains_net_membership:
  "isFavourites i (run_ops ops (empty_store st)) = last_affecting_is_add i ops"
proof (induction ops rule: rev_induct)
  case Nil
  show ?case by (simp add: run_ops_def last_affecting_is_add_def not_isFavourites_empty)
next
  case (snoc opn ops)
  show ?case
  proof (cases opn)
    case (Add m)
    with snoc show ?thesis
      by (simp add: run_ops_snoc isFavourites_add last_affecting_is_add_def)
  next
    case (Remove j)
    with snoc show ?thesis
      by (simp add: run_ops_snoc isFavourites_remove last_affecting_is_add_def)
  qed
qed

text \<open>
  C3. The claim: \<open>initialize()\<close> ends normally whatever the slot holds, and malformed
  text gives the empty set. The code calls \<open>JSON.parse\<close> with nothing to catch what it
  throws, and hands whatever it returns to \<open>setFavourites\<close>. What holds: an absent slot
  and the empty string leave the favourites at the initial empty array; text that
  \<open>JSON.parse\<close> accepts makes the parsed value the favourites (a sequence of movie
  records in particular); text that \<open>JSON.parse\<close> rejects makes the effect end with
  that error.
\<close>

theorem initialize_outcomes:
  "(storage ''favourites'' = None \<longrightarrow> initialize storage = Inr (JArr [])) \<and>
   (storage ''favourites'' = Some [] \<longrightarrow> initialize storage = Inr (JArr [])) \<and>
   (storage ''favourites'' = Some text \<and> JSON_parse text = Inr v \<longrightarrow> initialize storage = Inr v) \<and>
   (storage ''favourites'' = Some text \<and> text \<noteq> [] \<and> JSON_parse text = Inl e
      \<longrightarrow> initialize storage = Inl e) \<and>
   initialize storage \<noteq> Inl OutOfFuel"
proof -
  have "JSON_parse text = Inr v \<Longrightarrow> text \<noteq> []" using JSON_parse_Nil by auto
  moreover have "initialize storage \<noteq> Inl OutOfFuel"
    by (simp add: initialize_def init_effect_def JSON_parse_fuel split: option.splits)
  ultimately show ?thesis
    by (auto simp: initialize_def init_effect_def truthy_def)
qed

text \<open>The theorem at concrete slots: absent, empty, a stored list, an object, cut-off text.\<close>

theorem initialize_outcomes_witness:
  \<open>initialize Map.empty = Inr (JArr []) \<and>
   initialize [''favourites'' \<mapsto> ''''] = Inr (JArr []) \<and>
   JSON_parse ''[{"id":1,"title":"Dune","poster_path":null}]'' = Inr (favourites_value [dune]) \<and>
   initialize [''favourites'' \<mapsto> ''[{"id":1,"title":"Dune","poster_path":null}]'']
     = Inr (favourites_value [dune]) \<and>
   JSON_parse ''{"id":1}'' = Inr (JObj [(''id'', JNum 1)]) \<and>
   initialize [''favourites'' \<mapsto> ''{"id":1}''] = Inr (JObj [(''id'', JNum 1)]) \<and>
   JSON_parse ''[{"id":1,'' = Inl SyntaxError \<and>
   initialize [''favourites'' \<mapsto> ''[{"id":1,''] = Inl SyntaxError\<close>
proof -
  have p1: \<open>JSON_parse ''[{"id":1,"title":"Dune","poster_path":null}]'' = Inr (favourites_value [dune])\<close>
    by code_simp
  have p2: \<open>JSON_parse ''{"id":1}'' = Inr (JObj [(''id'', JNum 1)])\<close>
    by code_simp
  have p3: \<open>JSON_parse ''[{"id":1,'' = Inl SyntaxError\<close>
    by code_simp
  show ?thesis
    using initialize_outcomes [of Map.empty]
      initialize_outcomes [of \<open>[''favourites'' \<mapsto> '''']\<close>]
      initialize_outcomes [of \<open>[''favourites'' \<mapsto> ''[{"id":1,"title":"Dune","poster_path":null}]'']\<close>
        \<open>''[{"id":1,"title":"Dune","poster_path":null}]''\<close> \<open>favourites_value [dune]\<close>]
      initialize_outcomes [of \<open>[''favourites'' \<mapsto> ''{"id":1}'']\<close> \<open>''{"id":1}''\<close>
        \<open>JObj [(''id'', JNum 1)]\<close>]
      initialize_outcomes [of \<open>[''favourites'' \<mapsto> ''[{"id":1,'']\<close> \<open>''[{"id":1,''\<close> _ SyntaxError]
      p1 p2 p3
    by simp
qed

text \<open>
  C3 as stated fails: with the text \<open>undefined\<close> or a cut-off list in the slot the effect
  ends with \<open>SyntaxError\<close> instead of an empty set, and text that parses to something
  other than a list of movies is taken over as it is.
\<close>

theorem initialize_malformed_counterexample:
  \<open>initialize [''favourites'' \<mapsto> ''undefined''] = Inl SyntaxError \<and>
   initialize [''favourites'' \<mapsto> ''[{"id":1,''] = Inl SyntaxError \<and>
   initialize [''favourites'' \<mapsto> ''{"id":1}''] = Inr (JObj [(''id'', JNum 1)])\<close>
  by code_simp

text \<open>
  C4. Round trip: the text that the second effect writes for a favourites list, read back
  by \<open>initialize()\<close>, gives the JavaScript value of the same list; and two lists with the
  same value are the same list (same identifiers, same records, same order). The same
  holds for the slot as \<open>add\<close> and \<open>remove\<close> leave it.
\<close>

theorem persist_then_initialize:
  "initialize (localStorage (persist_effect s)) = Inr (favourites_value (favourites s)) \<and>
   initialize (localStorage (addToFavourites m s)) = Inr (favourites_value (favourites s @ [m])) \<and>
   initialize (localStorage (removeFromFavourites i s))
     = Inr (favourites_value (filter (\<lambda>movie. movie_id movie \<noteq> i) (favourites s))) \<and>
   (favourites_value favs = favourites_value favs') = (favs = favs')"
  by (simp add: persist_effect_def addToFavourites_def removeFromFavourites_def
        localStorage_setFavourites initialize_stored favourites_value_inj)

text \<open>
  C5. After \<open>add(movie)\<close> and after \<open>remove(movieId)\<close> the slot \<open>favourites\<close> of the
  storage holds the serialization of the whole current favourites list; the storage is
  the old one with that one slot overwritten.
\<close>

theorem mutation_overwrites_slot:
  "localStorage (addToFavourites m s) ''favourites''
     = Some (JSON_stringify (favourites_value (favourites (addToFavourites m s)))) \<and>
   localStorage (removeFromFavourites i s) ''favourites''
     = Some (JSON_stringify (favourites_value (favourites (removeFromFavourites i s)))) \<and>
   localStorage (addToFavourites m s)
     = (localStorage s)(''favourites'' \<mapsto> JSON_stringify (favourites_value (favourites s @ [m]))) \<and>
   localStorage (removeFromFavourites i s)
     = (localStorage s)(''favourites'' \<mapsto>
          JSON_stringify (favourites_value (filter (\<lambda>movie. movie_id movie \<noteq> i) (favourites s))))"
  by (simp add: addToFavourites_def removeFromFavourites_def localStorage_setFavourites
        favourites_setFavourites)

text \<open>
  C9. \<open>remove\<close> is idempotent: removing an identifier twice gives the state that removing
  it once gives, and removing an identifier that is not in the set leaves the favourites
  as they are.
\<close>

theorem remove_idempotent:
  "removeFromFavourites i (removeFromFavourites i s) = removeFromFavourites i s \<and>
   (\<not> isFavourites i s \<longrightarrow> favourites (removeFromFavourites i s) = favourites s)"
  using remove_twice remove_absent by blast

text \<open>The theorem at a concrete store, for a member and for an identifier that is absent.\<close>

theorem remove_idempotent_witness:
  "removeFromFavourites 1 (removeFromFavourites 1 \<lparr>favourites = [dune, arrival], localStorage = Map.empty\<rparr>)
     = removeFromFavourites 1 \<lparr>favourites = [dune, arrival], localStorage = Map.empty\<rparr> \<and>
   \<not> isFavourites 3 \<lparr>favourites = [dune, arrival], localStorage = Map.empty\<rparr> \<and>
   favourites (removeFromFavourites 3 \<lparr>favourites = [dune, arrival], localStorage = Map.empty\<rparr>)
     = [dune, arrival]"
proof -
  have n: "\<not> isFavourites 3 \<lparr>favourites = [dune, arrival], localStorage = Map.empty\<rparr>"
    by (simp add: isFavourites_def dune_def arrival_def)
  show ?thesis
    using remove_idempotent [of 1 "\<lparr>favourites = [dune, arrival], localStorage = Map.empty\<rparr>"]
      remove_idempotent [of 3 "\<lparr>favourites = [dune, arrival], localStorage = Map.empty\<rparr>"] n
    by simp
qed

text \<open>
  C10. For every favourites list, also one that holds an identifier several times, one
  \<open>remove(id)\<close> deletes every entry with that identifier: \<open>isFavourites\<close> is false
  afterwards, what remains is a subsequence of the list (the order is kept), and every
  record with another identifier occurs as often as before.
\<close>

theorem remove_deletes_every_entry:
  "\<not> isFavourites i (removeFromFavourites i s) \<and>
   subseq (favourites (removeFromFavourites i s)) (favourites s) \<and>
   (\<forall>m. movie_id m \<noteq> i \<longrightarrow>
      count_list (favourites (removeFromFavourites i s)) m = count_list (favourites s) m)"
  by (simp add: isFavourites_remove favourites_remove count_list_filter)

text \<open>The theorem at a list that holds the identifier 1 three times.\<close>

theorem remove_deletes_every_entry_witness:
  "\<not> isFavourites 1 (removeFromFavourites 1 \<lparr>favourites = [dune, arrival, dune_again, dune], localStorage = Map.empty\<rparr>) \<and>
   favourites (removeFromFavourites 1 \<lparr>favourites = [dune, arrival, dune_again, dune], localStorage = Map.empty\<rparr>) = [arrival] \<and>
   subseq [arrival] [dune, arrival, dune_again, dune] \<and>
   movie_id arrival \<noteq> 1 \<and>
   count_list (favourites (removeFromFavourites 1 \<lparr>favourites = [dune, arrival, dune_again, dune], localStorage = Map.empty\<rparr>)) arrival = 1"
proof -
  have f: "favourites (removeFromFavourites 1 \<lparr>favourites = [dune, arrival, dune_again, dune], localStorage = Map.empty\<rparr>) = [arrival]"
    by (simp add: favourites_remove dune_def arrival_def dune_again_def)
  have a: "movie_id arrival \<noteq> 1" by (simp add: arrival_def)
  have c: "count_list [dune, arrival, dune_again, dune] arrival = 1"
    by (simp add: dune_def arrival_def dune_again_def)
  show ?thesis
    using remove_deletes_every_entry [of 1 "\<lparr>favourites = [dune, arrival, dune_again, dune], localStorage = Map.empty\<rparr>"]
      f a c
    by simp
qed

section \<open>The browse view: claims\<close>

text \<open>
  C6. A search submitted while the query is empty or white space only, or while a fetch
  is in flight (\<open>loading\<close> is true), changes nothing: the state after \<open>handleSearch\<close> is
  the state before it (loading flag, result list and error message included) and no
  network call is made.
\<close>

theorem handleSearch_ignored:
  "all_whitespace (searchQuery s) \<or> loading s \<Longrightarrow> handleSearch s = (s, None)"
  by (auto simp: handleSearch_def truthy_def trim_empty_iff)

text \<open>The theorem at a white-space query, at the empty query and at a state that is loading.\<close>

theorem handleSearch_ignored_witness:
  "handleSearch \<lparr>searchQuery = [CHR '' '', CHR 0x09, CHR 0xA0], movies = [dune], error = Some ''Failed to load movies...'', loading = False\<rparr>
     = (\<lparr>searchQuery = [CHR '' '', CHR 0x09, CHR 0xA0], movies = [dune], error = Some ''Failed to load movies...'', loading = False\<rparr>, None) \<and>
   handleSearch \<lparr>searchQuery = [], movies = [], error = None, loading = False\<rparr>
     = (\<lparr>searchQuery = [], movies = [], error = None, loading = False\<rparr>, None) \<and>
   handleSearch \<lparr>searchQuery = ''dune'', movies = [arrival], error = None, loading = True\<rparr>
     = (\<lparr>searchQuery = ''dune'', movies = [arrival], error = None, loading = True\<rparr>, None)"
  using handleSearch_ignored [of "\<lparr>searchQuery = [CHR '' '', CHR 0x09, CHR 0xA0], movies = [dune], error = Some ''Failed to load movies...'', loading = False\<rparr>"]
    handleSearch_ignored [of "\<lparr>searchQuery = [], movies = [], error = None, loading = False\<rparr>"]
    handleSearch_ignored [of "\<lparr>searchQuery = ''dune'', movies = [arrival], error = None, loading = True\<rparr>"]
  by (simp add: all_whitespace_def js_whitespace_def)

text \<open>
  C7. When the first \<open>getPopularMovies()\<close> call fails, the error message is
  \<open>Failed to load movies...\<close> and the result list is what it was (empty at the start);
  however the call settles, \<open>loading\<close> is false afterwards.
\<close>

theorem loadPopularMovies_settles:
  "error (loadPopularMovies (Inl e) s) = Some ''Failed to load movies...'' \<and>
   movies (loadPopularMovies (Inl e) s) = movies s \<and>
   movies (loadPopularMovies (Inl e) home_init) = [] \<and>
   loading (loadPopularMovies outcome s) = False"
  by (simp add: loadPopularMovies_def home_init_def Let_def split: sum.splits)

text \<open>
  C8. The claim: for every result list and query the movies on the page are exactly the
  entries whose title contains the query up to case. The page has a gate: while
  \<open>loading\<close> is true it shows the loading text and no movie. What holds: when
  \<open>loading\<close> is false the movies shown are the entries whose title contains the query
  as a substring up to case, in list order; while \<open>loading\<close> is true none is shown;
  rendering computes the page from the state and leaves the stored list alone, so with
  the query cleared (and \<open>loading\<close> false) the whole stored list is shown.
\<close>

theorem shown_when_loaded:
  "(\<not> loading s \<longrightarrow>
      shown (render_grid s) = filter (\<lambda>movie. ci_substring (searchQuery s) (title movie)) (movies s)) \<and>
   (loading s \<longrightarrow> shown (render_grid s) = []) \<and>
   (\<not> loading s \<longrightarrow> shown (render_grid (s\<lparr>searchQuery := []\<rparr>)) = movies s)"
  by (simp add: shown_render includes_ci ci_substring_Nil)

text \<open>The theorem at a state with three movies, loaded and loading.\<close>

theorem shown_when_loaded_witness:
  "shown (render_grid \<lparr>searchQuery = ''dUn'', movies = [dune, arrival, dune_again], error = None, loading = False\<rparr>)
     = [dune, dune_again] \<and>
   filter (\<lambda>movie. ci_substring ''dUn'' (title movie)) [dune, arrival, dune_again] = [dune, dune_again] \<and>
   shown (render_grid \<lparr>searchQuery = ''dUn'', movies = [dune, arrival, dune_again], error = None, loading = True\<rparr>) = [] \<and>
   shown (render_grid (\<lparr>searchQuery = ''dUn'', movies = [dune, arrival, dune_again], error = None, loading = False\<rparr>\<lparr>searchQuery := []\<rparr>))
     = [dune, arrival, dune_again]"
proof -
  have f: "filter (\<lambda>movie. ci_substring ''dUn'' (title movie)) [dune, arrival, dune_again] = [dune, dune_again]"
    by code_simp
  show ?thesis
    using shown_when_loaded [of "\<lparr>searchQuery = ''dUn'', movies = [dune, arrival, dune_again], error = None, loading = False\<rparr>"]
      shown_when_loaded [of "\<lparr>searchQuery = ''dUn'', movies = [dune, arrival, dune_again], error = None, loading = True\<rparr>"]
      f
    by simp
qed

text \<open>
  C8 as stated fails: while a fetch is in flight the page shows no movie, though an entry
  of the stored list matches the query.
\<close>

theorem shown_while_loading_counterexample:
  "shown (render_grid \<lparr>searchQuery = ''dun'', movies = [dune, arrival], error = None, loading = True\<rparr>) = [] \<and>
   filter (\<lambda>movie. ci_substring ''dun'' (title movie)) [dune, arrival] = [dune]"
  by code_simp

end
